theory Spec2Isabelle
  imports Main "HOL-Library.Sublist"
begin

section \<open>Kernel terms\<close>

text \<open>
  Hierarchical names are kept as strings. Universe levels follow the data model
  (\<open>Zero\<close>, \<open>Succ\<close>, \<open>Max\<close>, \<open>UVar\<close>); the kernel code below only ever compares
  them for equality.
\<close>

type_synonym name = string

datatype level = Zero | Succ level | Max level level | UVar name

text \<open>
  The evaluators \<open>F\<close> of the template \<open>int_bin_op<Name, Hash, F>\<close> and the builtin
  value objects of the arithmetic module. Two value objects are equal (\<open>operator==\<close>)
  when their kinds agree and, for numerals, when the numbers agree; this is the
  equality of the datatype. \<open>mpz\<close> numbers are unbounded integers.
\<close>

datatype int_eval = int_add_eval | int_sub_eval | int_mul_eval | int_div_eval

datatype val =
    int_type_value
  | int_value_value int
  | int_bin_op int_eval
  | int_le_value
  | bool_type_value
  | bool_value_value bool

text \<open>
  Entries of the local context of a metavariable: \<open>Lift s n\<close> shifts the indices
  \<open>\<ge> s\<close> by \<open>n\<close>, \<open>Inst s v\<close> substitutes \<open>Var s\<close> by \<open>v\<close>. The newest entry is
  the head of the list.
\<close>

datatype 'e local_entry = Lift nat nat | Inst nat 'e

text \<open>
  Expressions by kind (\<open>expr_kind\<close>), as \<open>max_sharing.cpp\<close> and \<open>expr_eq.h\<close>
  enumerate them. Applications are n-ary, the function is argument 0. A constant may
  carry a cached type, a let may carry a type. \<open>Proj True\<close> is the first projection.
  De Bruijn indices (\<open>unsigned\<close> in the source) are natural numbers: the model
  covers index arithmetic that does not wrap around.
\<close>

datatype expr =
    Var nat
  | Constant name "expr option"
  | Value val
  | App "expr list"
  | Lambda name expr expr
  | Pi name expr expr
  | ESigma name expr expr
  | Type level
  | ELet name "expr option" expr expr
  | MetaVar name "expr local_entry list"
  | HEq expr expr
  | EPair expr expr expr
  | Proj bool expr

datatype error = Assertion_violation | Division_by_zero

fun is_lambda :: "expr \<Rightarrow> bool" where
  "is_lambda (Lambda n t b) = True"
| "is_lambda e = False"

text \<open>\<open>abst_body\<close> is only called on abstractions; elsewhere the model returns the
  expression itself.\<close>

fun abst_body :: "expr \<Rightarrow> expr" where
  "abst_body (Lambda n t b) = b"
| "abst_body (Pi n t b) = b"
| "abst_body (ESigma n t b) = b"
| "abst_body e = e"

definition mk_var :: "nat \<Rightarrow> expr" where
  "mk_var i = Var i"

text \<open>Modelled from the spec: \<open>mk_app\<close> of \<open>expr.cpp\<close>, which is not among the
  sources. The smart constructor returns the node for its constructor and children:
  the application of argument 0 to the remaining arguments.\<close>

definition mk_app :: "expr list \<Rightarrow> expr" where
  "mk_app args = App args"

section \<open>Substitution algebra\<close>

text \<open>Modelled from the spec: the traversal \<open>replace\<close> of \<open>replace_fn.h\<close>, which is
  not among the sources. \<open>replace f e\<close> visits \<open>e\<close> top-down, with the number
  \<open>offset\<close> of binders crossed. At every node it calls \<open>f\<close>; when \<open>f\<close> answers with
  another expression, that expression replaces the node and is not visited; when
  \<open>f\<close> hands the node back (\<open>None\<close> here), the children are visited, the body of a
  binder or let with \<open>offset + 1\<close>. Variables, constants, sorts, values and
  metavariables have no children to visit.\<close>

fun replace :: "(expr \<Rightarrow> nat \<Rightarrow> expr option) \<Rightarrow> expr \<Rightarrow> nat \<Rightarrow> expr" where
  "replace f e offset =
     (case f e offset of
        Some r \<Rightarrow> r
      | None \<Rightarrow>
          (case e of
             App args \<Rightarrow> App (map (\<lambda>c. replace f c offset) args)
           | Lambda n t b \<Rightarrow> Lambda n (replace f t offset) (replace f b (offset + 1))
           | Pi n t b \<Rightarrow> Pi n (replace f t offset) (replace f b (offset + 1))
           | ESigma n t b \<Rightarrow> ESigma n (replace f t offset) (replace f b (offset + 1))
           | ELet n t v b \<Rightarrow>
               ELet n (map_option (\<lambda>c. replace f c offset) t) (replace f v offset)
                 (replace f b (offset + 1))
           | HEq l r \<Rightarrow> HEq (replace f l offset) (replace f r offset)
           | EPair a b t \<Rightarrow>
               EPair (replace f a offset) (replace f b offset) (replace f t offset)
           | Proj i a \<Rightarrow> Proj i (replace f a offset)
           | _ \<Rightarrow> e))"


text \<open>Modelled from the spec: \<open>add_lift\<close>, \<open>add_inst\<close> (\<open>metavar.h\<close>) and
  \<open>lift_free_vars\<close> (\<open>free_vars.h\<close>), which are not among the sources.
  \<open>lift_free_vars e s d\<close> adds \<open>d\<close> to every free variable of \<open>e\<close> with index
  \<open>\<ge> s\<close>, the cutoff growing by one under each binder, and is the identity for
  \<open>d = 0\<close>. On a metavariable the operation is not applied eagerly but recorded as
  an entry of its local context. No metavariable environment is passed (the
  overloads without \<open>menv\<close>). The spec gives no width for the index arithmetic of
  \<open>lift_free_vars\<close>; it is taken on natural numbers.\<close>

fun add_lift :: "expr \<Rightarrow> nat \<Rightarrow> nat \<Rightarrow> expr" where
  "add_lift (MetaVar nm lctx) s n = MetaVar nm (Lift s n # lctx)"
| "add_lift m s n = m"

fun add_inst :: "expr \<Rightarrow> nat \<Rightarrow> expr \<Rightarrow> expr" where
  "add_inst (MetaVar nm lctx) s v = MetaVar nm (Inst s v # lctx)"
| "add_inst m s v = m"

definition lift_free_vars :: "expr \<Rightarrow> nat \<Rightarrow> nat \<Rightarrow> expr" where
  "lift_free_vars e s d =
     (if d = 0 then e
      else replace (\<lambda>m offset.
             case m of
               Var i \<Rightarrow> if i \<ge> s + offset then Some (mk_var (i + d)) else None
             | MetaVar nm lctx \<Rightarrow> Some (add_lift m (s + offset) d)
             | _ \<Rightarrow> None) e 0)"

text \<open>Arithmetic on values of the C++ type \<open>unsigned\<close>, which has 32 bits: sums and
  differences are taken modulo \<open>2^32\<close>. A value of that type is a natural number
  below \<open>2^32\<close>.\<close>

definition uadd :: "nat \<Rightarrow> nat \<Rightarrow> nat" where
  "uadd a b = (a + b) mod 2 ^ 32"

definition usub :: "nat \<Rightarrow> nat \<Rightarrow> nat" where
  "usub a b = nat ((int a - int b) mod 2 ^ 32)"

text \<open>\<open>instantiate_core<ClosedSubst>(a, s, n, subst, menv)\<close> of \<open>instantiate.cpp\<close>.
  The array \<open>subst\<close> and its length \<open>n\<close> are separate arguments, as in the source;
  \<open>s\<close>, \<open>n\<close>, \<open>offset\<close> and the index of a variable are of type \<open>unsigned\<close>, and the
  sums and differences of the source are computed in that type.
  A branch that returns \<open>m\<close> itself is \<open>None\<close>; for a metavariable the loop result is
  returned (it is \<open>m\<close> itself when \<open>n = 0\<close>, and a metavariable has no children to
  visit).\<close>

definition instantiate_core :: "bool \<Rightarrow> expr \<Rightarrow> nat \<Rightarrow> nat \<Rightarrow> expr list \<Rightarrow> expr" where
  "instantiate_core ClosedSubst a s n subst =
     replace (\<lambda>m offset.
        case m of
          Var vidx \<Rightarrow>
            if vidx \<ge> uadd offset s then
              if vidx < uadd (uadd offset s) n then
                if ClosedSubst
                then Some (subst ! usub (usub n (usub (usub vidx s) offset)) 1)
                else Some (lift_free_vars
                             (subst ! usub (usub n (usub (usub vidx s) offset)) 1) 0 offset)
              else Some (mk_var (usub vidx n))
            else None
        | MetaVar nm lctx \<Rightarrow>
            Some (fold (\<lambda>i r. add_inst r (usub (usub (uadd (uadd offset s) n) i) 1)
                          (if ClosedSubst then subst ! i
                           else lift_free_vars (subst ! i) 0 (usub (usub (uadd offset n) i) 1)))
                    [0..<n] m)
        | _ \<Rightarrow> None) a 0"

definition instantiate :: "expr \<Rightarrow> nat \<Rightarrow> nat \<Rightarrow> expr list \<Rightarrow> expr" where
  "instantiate a s n subst = instantiate_core False a s n subst"

text \<open>Modelled from the spec: \<open>has_free_var(e, low, max)\<close> of \<open>free_vars.h\<close>, which is
  not among the sources, for the upper bound \<open>std::numeric_limits<unsigned>::max()\<close>
  of the assertion below, which is taken as no upper bound. \<open>has_free_var e low\<close>
  holds when \<open>e\<close> has a free variable with index \<open>\<ge> low\<close>. The instantiation of a
  metavariable is not known, so a metavariable counts as having free variables.\<close>

fun has_free_var :: "expr \<Rightarrow> nat \<Rightarrow> bool" where
  "has_free_var (Var i) low = (i \<ge> low)"
| "has_free_var (Constant n t) low = False"
| "has_free_var (Value v) low = False"
| "has_free_var (Type l) low = False"
| "has_free_var (MetaVar nm lctx) low = True"
| "has_free_var (App args) low = (\<exists>c \<in> set args. has_free_var c low)"
| "has_free_var (Lambda n t b) low = (has_free_var t low \<or> has_free_var b (low + 1))"
| "has_free_var (Pi n t b) low = (has_free_var t low \<or> has_free_var b (low + 1))"
| "has_free_var (ESigma n t b) low = (has_free_var t low \<or> has_free_var b (low + 1))"
| "has_free_var (ELet n t v b) low =
     ((\<exists>c \<in> set_option t. has_free_var c low) \<or> has_free_var v low \<or> has_free_var b (low + 1))"
| "has_free_var (HEq l r) low = (has_free_var l low \<or> has_free_var r low)"
| "has_free_var (EPair a b t) low =
     (has_free_var a low \<or> has_free_var b low \<or> has_free_var t low)"
| "has_free_var (Proj i a) low = has_free_var a low"

text \<open>\<open>instantiate_with_closed(a, n, s)\<close>: the assertion on the first \<open>n\<close> entries
  of \<open>s\<close>, then the closed variant from index 0.\<close>

definition instantiate_with_closed :: "expr \<Rightarrow> nat \<Rightarrow> expr list \<Rightarrow> error + expr" where
  "instantiate_with_closed a n s =
     (if list_all (\<lambda>e. \<not> has_free_var e 0) (take n s)
      then Inr (instantiate_core True a 0 n s)
      else Inl Assertion_violation)"

text \<open>\<open>apply_beta(f, num_args, args)\<close>. The loop descends through leading lambdas
  while arguments remain; \<open>m\<close> counts the lambdas consumed.\<close>

function apply_beta_loop :: "expr \<Rightarrow> nat \<Rightarrow> nat \<Rightarrow> expr \<times> nat" where
  "apply_beta_loop f m num_args =
     (if is_lambda (abst_body f) \<and> m < num_args
      then apply_beta_loop (abst_body f) (m + 1) num_args
      else (f, m))"
  by pat_completeness auto
termination
  by (relation "measure (\<lambda>(f, m, num_args). num_args - m)") auto

definition apply_beta :: "expr \<Rightarrow> nat \<Rightarrow> expr list \<Rightarrow> error + expr" where
  "apply_beta f num_args args =
     (if \<not> is_lambda f then Inr (mk_app (f # take num_args args))
      else
        (case apply_beta_loop f 1 num_args of
           (f', m) \<Rightarrow>
             if \<not> m \<le> num_args then Inl Assertion_violation
             else
               let r = instantiate (abst_body f') 0 m args in
               if m = num_args then Inr r
               else Inr (mk_app (r # map (\<lambda>i. args ! i) [m..<num_args]))))"

subsection \<open>Occurrences\<close>

text \<open>The sub-expressions the traversal visits, each with the number of binders
  crossed to enter it, and the sub-expression at a path together with the number of
  binders crossed along the path.\<close>

fun children :: "expr \<Rightarrow> (expr \<times> nat) list" where
  "children (App args) = map (\<lambda>c. (c, 0)) args"
| "children (Lambda n t b) = [(t, 0), (b, 1)]"
| "children (Pi n t b) = [(t, 0), (b, 1)]"
| "children (ESigma n t b) = [(t, 0), (b, 1)]"
| "children (ELet n t v b) =
     (case t of None \<Rightarrow> [] | Some c \<Rightarrow> [(c, 0)]) @ [(v, 0), (b, 1)]"
| "children (HEq l r) = [(l, 0), (r, 0)]"
| "children (EPair a b t) = [(a, 0), (b, 0), (t, 0)]"
| "children (Proj i a) = [(a, 0)]"
| "children e = []"

fun subterm_at :: "expr \<Rightarrow> nat list \<Rightarrow> (expr \<times> nat) option" where
  "subterm_at e [] = Some (e, 0)"
| "subterm_at e (i # p) =
     (if i < length (children e)
      then (case children e ! i of
              (c, k) \<Rightarrow> map_option (\<lambda>(x, d). (x, k + d)) (subterm_at c p))
      else None)"


text \<open>The leading lambdas of an expression, and the expression under \<open>k\<close> of them.\<close>

fun num_lambdas :: "expr \<Rightarrow> nat" where
  "num_lambdas (Lambda n t b) = Suc (num_lambdas b)"
| "num_lambdas e = 0"

fun strip_lambdas :: "nat \<Rightarrow> expr \<Rightarrow> expr" where
  "strip_lambdas 0 f = f"
| "strip_lambdas (Suc k) f = strip_lambdas k (abst_body f)"

subsection \<open>The traversal\<close>

declare replace.simps [simp del]
declare apply_beta_loop.simps [simp del]

lemma replace_Some: "f e off = Some r \<Longrightarrow> replace f e off = r"
  by (simp add: replace.simps)

lemma replace_None:
  "f e off = None \<Longrightarrow>
   replace f e off =
     (case e of
        App args \<Rightarrow> App (map (\<lambda>c. replace f c off) args)
      | Lambda n t b \<Rightarrow> Lambda n (replace f t off) (replace f b (off + 1))
      | Pi n t b \<Rightarrow> Pi n (replace f t off) (replace f b (off + 1))
      | ESigma n t b \<Rightarrow> ESigma n (replace f t off) (replace f b (off + 1))
      | ELet n t v b \<Rightarrow>
          ELet n (map_option (\<lambda>c. replace f c off) t) (replace f v off)
            (replace f b (off + 1))
      | HEq l r \<Rightarrow> HEq (replace f l off) (replace f r off)
      | EPair a b t \<Rightarrow> EPair (replace f a off) (replace f b off) (replace f t off)
      | Proj i a \<Rightarrow> Proj i (replace f a off)
      | _ \<Rightarrow> e)"
  by (simp add: replace.simps)

lemma children_replace:
  "f e off = None \<Longrightarrow>
   children (replace f e off) = map (\<lambda>(c, k). (replace f c (off + k), k)) (children e)"
  by (cases e) (simp_all add: replace_None split: option.splits)

text \<open>A function that hands back every node with children leaves the shape of the
  expression above each leaf as it is: the traversal reaches the sub-expression at
  path \<open>p\<close> with the offset grown by the binders crossed.\<close>

lemma subterm_at_replace:
  assumes leaf: "\<And>e off. children e \<noteq> [] \<Longrightarrow> f e off = None"
  shows "subterm_at e p = Some (x, d) \<Longrightarrow>
         subterm_at (replace f e off) p = Some (replace f x (off + d), d)"
proof (induction p arbitrary: e off d)
  case Nil
  then show ?case by simp
next
  case (Cons i p)
  from Cons.prems have i: "i < length (children e)"
    by (simp split: if_splits)
  then have ne: "children e \<noteq> []" by auto
  obtain c k where ck: "children e ! i = (c, k)" by (cases "children e ! i")
  from Cons.prems i ck obtain d' where sub: "subterm_at c p = Some (x, d')" and d: "d = k + d'"
    by (auto split: if_splits)
  have fe: "f e off = None" using leaf[OF ne] .
  have ch: "children (replace f e off) = map (\<lambda>(c, k). (replace f c (off + k), k)) (children e)"
    using fe by (rule children_replace)
  have "subterm_at (replace f c (off + k)) p = Some (replace f x (off + k + d'), d')"
    using Cons.IH[OF sub] .
  then show ?case
    unfolding subterm_at.simps(2)[of "replace f e off"] ch using i ck d
    by (simp add: add.assoc)
qed

subsection \<open>Instantiation\<close>

lemma uadd_small: "a + b < 2 ^ 32 \<Longrightarrow> uadd a b = a + b"
  by (simp add: uadd_def)

lemma usub_small: "b \<le> a \<Longrightarrow> a < 2 ^ 32 \<Longrightarrow> usub a b = a - b"
proof -
  assume ba: "b \<le> a" and a: "a < 2 ^ 32"
  have "(int a - int b) mod 2 ^ 32 = int a - int b"
    using ba a by (simp add: mod_pos_pos_trivial)
  then show ?thesis using ba by (simp add: usub_def)
qed

text \<open>
  Claim C1, as stated, at \<open>s = 2^32 - 1\<close> and \<open>n = 2\<close>: the variable
  \<open>Var s\<close> is a free occurrence of \<open>Var (s + 0)\<close>, which the claim replaces by
  \<open>subst[1]\<close>. The bound \<open>offset + s + n\<close> wraps around to 1, the test
  \<open>vidx < offset + s + n\<close> fails, and the variable is decremented by \<open>n\<close> instead.
\<close>

theorem instantiate_wraps_counterexample:
  "instantiate (Var 4294967295) 4294967295 2 [Constant ''a'' None, Constant ''b'' None]
     = Var 4294967293 \<and>
   instantiate (Var 4294967295) 4294967295 2 [Constant ''a'' None, Constant ''b'' None]
     \<noteq> [Constant ''a'' None, Constant ''b'' None] ! (2 - 1 - 0)"
  by (simp add: instantiate_def instantiate_core_def replace.simps uadd_def usub_def mk_var_def)

text \<open>
  Claim C1, amended. Let the sub-expression of \<open>e\<close> at path \<open>p\<close> be the variable
  \<open>Var v\<close>, under \<open>d\<close> binders, let \<open>subst\<close> have length \<open>n\<close>, and let the index
  arithmetic not wrap around: \<open>v < 2^32\<close> and \<open>d + s + n < 2^32\<close>. In
  \<open>instantiate e s n subst\<close> the same path holds: the variable itself when
  \<open>v < d + s\<close> (it is bound, or free with an index below \<open>s\<close>); the entry
  \<open>subst[n - 1 - i]\<close> lifted by the \<open>d\<close> binders crossed when \<open>v = d + s + i\<close> with
  \<open>i < n\<close> (a free occurrence of \<open>Var (s + i)\<close>); and \<open>Var (v - n)\<close> when
  \<open>v \<ge> d + s + n\<close> (a free variable with index \<open>\<ge> s + n\<close>).
\<close>

theorem instantiate_occurrences:
  assumes "length subst = n" and "subterm_at e p = Some (Var v, d)"
    and "v < 2 ^ 32" and "d + s + n < 2 ^ 32"
  shows "subterm_at (instantiate e s n subst) p =
           Some (if v < d + s then Var v
                 else if v < d + s + n
                   then lift_free_vars (subst ! (n - 1 - (v - (d + s)))) 0 d
                 else Var (v - n), d)"
proof -
  let ?f = "\<lambda>m offset.
        case m of
          Var vidx \<Rightarrow>
            if vidx \<ge> uadd offset s then
              if vidx < uadd (uadd offset s) n then
                if False
                then Some (subst ! usub (usub n (usub (usub vidx s) offset)) 1)
                else Some (lift_free_vars
                             (subst ! usub (usub n (usub (usub vidx s) offset)) 1) 0 offset)
              else Some (mk_var (usub vidx n))
            else None
        | MetaVar nm lctx \<Rightarrow>
            Some (fold (\<lambda>i r. add_inst r (usub (usub (uadd (uadd offset s) n) i) 1)
                          (if False then subst ! i
                           else lift_free_vars (subst ! i) 0 (usub (usub (uadd offset n) i) 1)))
                    [0..<n] m)
        | _ \<Rightarrow> None"
  have leaf: "\<And>e off. children e \<noteq> [] \<Longrightarrow> ?f e off = None"
    subgoal for e off by (cases e) auto
    done
  have at: "subterm_at (replace ?f e 0) p = Some (replace ?f (Var v) (0 + d), d)"
    using subterm_at_replace[of ?f, OF leaf assms(2)] .
  have ds: "uadd d s = d + s" using assms(4) by (simp add: uadd_small)
  have dsn: "uadd (d + s) n = d + s + n" using assms(4) by (simp add: uadd_small)
  have idx: "usub (usub n (usub (usub v s) d)) 1 = n - 1 - (v - (d + s))"
    if "d + s \<le> v" "v < d + s + n"
  proof -
    have 1: "usub v s = v - s" using that assms(3) by (simp add: usub_small)
    have 2: "usub (v - s) d = v - s - d" using that assms(3) by (simp add: usub_small)
    have 3: "usub n (v - s - d) = n - (v - s - d)" using that assms(4) by (simp add: usub_small)
    have 4: "usub (n - (v - s - d)) 1 = n - (v - s - d) - 1"
      using that assms(4) by (simp add: usub_small)
    show ?thesis unfolding 1 2 3 4 by simp
  qed
  have dec: "usub v n = v - n" if "d + s + n \<le> v"
    using that assms(3) by (simp add: usub_small)
  have r: "replace ?f (Var v) d =
          (if v < d + s then Var v
           else if v < d + s + n
             then lift_free_vars (subst ! (n - 1 - (v - (d + s)))) 0 d
           else Var (v - n))"
  proof (cases "v < d + s")
    case True
    then show ?thesis by (simp add: replace.simps[of _ "Var v"] ds)
  next
    case lo: False
    show ?thesis
    proof (cases "v < d + s + n")
      case True
      have "replace ?f (Var v) d =
              lift_free_vars (subst ! usub (usub n (usub (usub v s) d)) 1) 0 d"
        using lo True by (simp add: replace.simps[of _ "Var v"] ds dsn del: One_nat_def)
      then show ?thesis using lo True idx by simp
    next
      case False
      have "replace ?f (Var v) d = Var (usub v n)"
        using lo False by (simp add: replace.simps[of _ "Var v"] ds dsn mk_var_def)
      then show ?thesis using lo False dec by simp
    qed
  qed
  have "subterm_at (replace ?f e 0) p = Some (replace ?f (Var v) d, d)"
    using at by (simp only: add_0)
  then show ?thesis
    unfolding instantiate_def instantiate_core_def r .
qed

theorem instantiate_occurrences_witness:
  "length [Constant ''a'' None, Lambda ''y'' (Type Zero) (Var 1)] = 2 \<and>
   subterm_at (Lambda ''x'' (Type Zero) (App [Var 0, Var 1, Var 2, Var 3, Var 4])) [1, 2]
     = Some (Var 2, 1) \<and>
   (2::nat) < 2 ^ 32 \<and> (1::nat) + 1 + 2 < 2 ^ 32 \<and>
   subterm_at
     (instantiate (Lambda ''x'' (Type Zero) (App [Var 0, Var 1, Var 2, Var 3, Var 4])) 1 2
        [Constant ''a'' None, Lambda ''y'' (Type Zero) (Var 1)]) [1, 2]
     = Some (Lambda ''y'' (Type Zero) (Var 2), 1)"
proof -
  let ?subst = "[Constant ''a'' None, Lambda ''y'' (Type Zero) (Var 1)]"
  let ?e = "Lambda ''x'' (Type Zero) (App [Var 0, Var 1, Var 2, Var 3, Var 4])"
  have h1: "length ?subst = 2" by simp
  have h2: "subterm_at ?e [1, 2] = Some (Var 2, 1)" by simp
  have h3: "(2::nat) < 2 ^ 32" by simp
  have h4: "(1::nat) + 1 + 2 < 2 ^ 32" by simp
  have "subterm_at (instantiate ?e 1 2 ?subst) [1, 2] =
          Some (lift_free_vars (Lambda ''y'' (Type Zero) (Var 1)) 0 1, 1)"
    using instantiate_occurrences[OF h1 h2 h3 h4] by simp
  moreover have "lift_free_vars (Lambda ''y'' (Type Zero) (Var 1)) 0 1
                   = Lambda ''y'' (Type Zero) (Var 2)"
    by (simp add: lift_free_vars_def replace.simps mk_var_def)
  ultimately show ?thesis using h1 h2 by simp
qed

subsection \<open>Closed substitutions\<close>

text \<open>The index into \<open>subst\<close> computed under the two tests on \<open>vidx\<close> is below \<open>n\<close>,
  also where a sum wraps around.\<close>

lemma int_usub: "int (usub a b) = (int a - int b) mod 2 ^ 32"
  by (simp add: usub_def)

lemma usub_less: "usub a b < 2 ^ 32"
proof -
  have "(int a - int b) mod 2 ^ 32 < 2 ^ 32" by simp
  then have "int (usub a b) < int (2 ^ 32)" by (simp add: int_usub)
  then show ?thesis by linarith
qed

lemma subst_index_in_range:
  assumes lo: "uadd offset s \<le> vidx" and hi: "vidx < uadd (uadd offset s) n"
  shows "usub (usub n (usub (usub vidx s) offset)) 1 < n"
proof (cases "n < 2 ^ 32")
  case False
  then show ?thesis
    using usub_less[of "usub n (usub (usub vidx s) offset)" 1] by simp
next
  case True
  let ?a = "uadd offset s"
  have a: "?a < 2 ^ 32" by (simp add: uadd_def)
  have small: "?a + n < 2 ^ 32"
  proof (rule ccontr)
    assume "\<not> ?a + n < 2 ^ 32"
    then have ge: "2 ^ 32 \<le> ?a + n" by simp
    have "?a + n - 2 ^ 32 < 2 ^ 32" using a True by simp
    then have "(?a + n) mod 2 ^ 32 = ?a + n - 2 ^ 32"
      using ge by (simp add: mod_if)
    then have "uadd ?a n < ?a" using True ge by (simp add: uadd_def[of ?a n])
    then show False using lo hi by simp
  qed
  then have hi': "vidx < ?a + n" using hi by (simp add: uadd_small)
  have v: "vidx < 2 ^ 32" using hi' small by simp
  have ia: "int ?a = (int offset + int s) mod 2 ^ 32"
    by (simp add: uadd_def zmod_int)
  have "int (usub (usub vidx s) offset) = (int vidx - int s - int offset) mod 2 ^ 32"
    by (simp add: int_usub mod_diff_left_eq)
  also have "\<dots> = (int vidx - (int offset + int s)) mod 2 ^ 32"
    by (simp add: algebra_simps)
  also have "\<dots> = (int vidx - int ?a) mod 2 ^ 32"
    unfolding ia by (simp add: mod_diff_right_eq)
  also have "\<dots> = int vidx - int ?a"
    using lo v by (simp add: mod_pos_pos_trivial)
  finally have t: "int (usub (usub vidx s) offset) = int vidx - int ?a" .
  let ?t = "usub (usub vidx s) offset"
  have tn: "?t < n" using t hi' lo by linarith
  have "int (usub n ?t) = (int n - int ?t) mod 2 ^ 32" by (rule int_usub)
  also have "\<dots> = int n - int ?t" using tn True by (simp add: mod_pos_pos_trivial)
  finally have u: "int (usub n ?t) = int n - int ?t" .
  have "int (usub (usub n ?t) 1) = (int (usub n ?t) - 1) mod 2 ^ 32"
    using int_usub[of "usub n ?t" 1] by simp
  also have "\<dots> = int n - int ?t - 1"
    using u tn True by (simp add: mod_pos_pos_trivial)
  finally show ?thesis using tn by linarith
qed

lemma replace_lift_closed:
  "\<not> has_free_var x (s + off) \<Longrightarrow>
   replace (\<lambda>m offset.
             case m of
               Var i \<Rightarrow> if i \<ge> s + offset then Some (mk_var (i + d)) else None
             | MetaVar nm lctx \<Rightarrow> Some (add_lift m (s + offset) d)
             | _ \<Rightarrow> None) x off = x"
proof (induction x arbitrary: off)
  case (App args)
  then show ?case by (simp add: replace_None map_idI)
next
  case (ELet n t v b)
  then show ?case by (cases t) (simp_all add: replace_None)
qed (simp_all add: replace_None)

lemma lift_free_vars_closed: "\<not> has_free_var x 0 \<Longrightarrow> lift_free_vars x 0 d = x"
  using replace_lift_closed[of x 0 0 d] by (simp add: lift_free_vars_def)

text \<open>
  Claim C9. When the \<open>n\<close> entries of \<open>s\<close> are closed (the assertion of
  \<open>instantiate_with_closed\<close> holds), \<open>instantiate_with_closed e n s\<close> returns the
  expression that the general \<open>instantiate(e, n, s)\<close>, which starts at index 0,
  returns.
\<close>

theorem instantiate_with_closed_eq_instantiate:
  assumes len: "length s = n" and closed: "\<forall>x \<in> set s. \<not> has_free_var x 0"
  shows "instantiate_with_closed e n s = Inr (instantiate e 0 n s)"
proof -
  have lift: "\<And>i d. i < n \<Longrightarrow> lift_free_vars (s ! i) 0 d = s ! i"
    using len closed by (simp add: lift_free_vars_closed)
  have fold_eq: "\<And>off (m::expr).
     fold (\<lambda>i r. add_inst r (usub (usub (uadd (uadd off 0) n) i) 1) (s ! i)) [0..<n] m =
     fold (\<lambda>i r. add_inst r (usub (usub (uadd (uadd off 0) n) i) 1)
                    (lift_free_vars (s ! i) 0 (usub (usub (uadd off n) i) 1))) [0..<n] m"
    by (rule fold_cong) (simp_all add: lift)
  have "instantiate_core True e 0 n s = instantiate_core False e 0 n s"
    unfolding instantiate_core_def
    apply (rule arg_cong[where f = "\<lambda>f. replace f e 0"])
    apply (rule ext)+
    subgoal for m off
      apply (cases m)
      using fold_eq[of off m] subst_index_in_range[of off 0 _ n]
      by (auto simp: lift)
    done
  moreover have "list_all (\<lambda>e. \<not> has_free_var e 0) (take n s)"
    using len closed by (simp add: list_all_iff)
  ultimately show ?thesis
    by (simp add: instantiate_with_closed_def instantiate_def)
qed

theorem instantiate_with_closed_eq_instantiate_witness:
  "length [Constant ''a'' None, Lambda ''y'' (Type Zero) (Var 0)] = 2 \<and>
   \<not> has_free_var (Constant ''a'' None) 0 \<and>
   \<not> has_free_var (Lambda ''y'' (Type Zero) (Var 0)) 0 \<and>
   instantiate_with_closed (Lambda ''x'' (Type Zero) (App [Var 0, Var 1, Var 2, Var 3])) 2
       [Constant ''a'' None, Lambda ''y'' (Type Zero) (Var 0)]
     = Inr (Lambda ''x'' (Type Zero)
              (App [Var 0, Lambda ''y'' (Type Zero) (Var 0), Constant ''a'' None, Var 1]))"
proof -
  let ?s = "[Constant ''a'' None, Lambda ''y'' (Type Zero) (Var 0)]"
  let ?e = "Lambda ''x'' (Type Zero) (App [Var 0, Var 1, Var 2, Var 3])"
  have h1: "length ?s = 2" by simp
  have h2: "\<forall>x \<in> set ?s. \<not> has_free_var x 0" by simp
  have "instantiate_with_closed ?e 2 ?s = Inr (instantiate ?e 0 2 ?s)"
    using instantiate_with_closed_eq_instantiate[OF h1 h2] .
  moreover have "instantiate ?e 0 2 ?s =
      Lambda ''x'' (Type Zero)
        (App [Var 0, Lambda ''y'' (Type Zero) (Var 0), Constant ''a'' None, Var 1])"
    by (simp add: instantiate_def instantiate_core_def lift_free_vars_def replace.simps
        mk_var_def uadd_def usub_def)
  ultimately show ?thesis by simp
qed


subsection \<open>Beta application\<close>

lemma is_lambda_num_lambdas: "is_lambda f \<longleftrightarrow> 0 < num_lambdas f"
  by (cases f) auto

lemma abst_body_strip_lambdas: "abst_body (strip_lambdas j f) = strip_lambdas (Suc j) f"
  by (induction j arbitrary: f) auto

lemma num_lambdas_abst_body: "is_lambda f \<Longrightarrow> num_lambdas (abst_body f) = num_lambdas f - 1"
  by (cases f) auto

lemma is_lambda_strip_lambdas: "j < num_lambdas f \<Longrightarrow> is_lambda (strip_lambdas j f)"
proof (induction j arbitrary: f)
  case 0
  then show ?case by (simp add: is_lambda_num_lambdas)
next
  case (Suc j)
  have "is_lambda f" using Suc.prems by (simp add: is_lambda_num_lambdas)
  then have "j < num_lambdas (abst_body f)"
    using Suc.prems by (simp add: num_lambdas_abst_body)
  then show ?case using Suc.IH by simp
qed

text \<open>The loop of \<open>apply_beta\<close>, started on a lambda with \<open>m\<close> lambdas counted, stops
  after as many further lambdas as the expression has or as arguments remain.\<close>

lemma apply_beta_loop_eq:
  "is_lambda f \<Longrightarrow>
   apply_beta_loop f m num_args =
     (strip_lambdas (min (num_lambdas f - 1) (num_args - m)) f,
      m + min (num_lambdas f - 1) (num_args - m))"
proof (induction f m num_args rule: apply_beta_loop.induct)
  case (1 f m num_args)
  show ?case
  proof (cases "is_lambda (abst_body f) \<and> m < num_args")
    case True
    then have IH: "apply_beta_loop (abst_body f) (m + 1) num_args =
       (strip_lambdas (min (num_lambdas (abst_body f) - 1) (num_args - (m + 1))) (abst_body f),
        m + 1 + min (num_lambdas (abst_body f) - 1) (num_args - (m + 1)))"
      using "1.IH" by simp
    have nb: "num_lambdas (abst_body f) = num_lambdas f - 1"
      using "1.prems" by (rule num_lambdas_abst_body)
    have pos: "0 < num_lambdas f - 1" "0 < num_args - m"
      using True nb by (simp_all add: is_lambda_num_lambdas)
    then have m: "min (num_lambdas f - 1) (num_args - m) =
                  Suc (min (num_lambdas f - 1 - 1) (num_args - (m + 1)))"
      by simp
    have "apply_beta_loop f m num_args = apply_beta_loop (abst_body f) (m + 1) num_args"
      using True by (simp add: apply_beta_loop.simps[of f m num_args])
    also have "\<dots> = (strip_lambdas (Suc (min (num_lambdas f - 1 - 1) (num_args - (m + 1)))) f,
        m + Suc (min (num_lambdas f - 1 - 1) (num_args - (m + 1))))"
      unfolding IH nb by simp
    finally show ?thesis unfolding m .
  next
    case False
    then have "min (num_lambdas f - 1) (num_args - m) = 0"
      using "1.prems" by (auto simp: is_lambda_num_lambdas num_lambdas_abst_body)
    moreover have "apply_beta_loop f m num_args = (f, m)"
      using False by (subst apply_beta_loop.simps) auto
    ultimately show ?thesis by simp
  qed
qed

lemma map_nth_upt_drop: "map (\<lambda>i. xs ! i) [m..<length xs] = drop m xs"
  by (simp add: list_eq_iff_nth_eq)

lemma is_lambda_instantiate: "is_lambda e \<Longrightarrow> is_lambda (instantiate e s n subst)"
  by (cases e) (simp_all add: instantiate_def instantiate_core_def replace_None)

text \<open>
  Claim C2, as stated, at a lambda and no argument: the loop leaves \<open>m = 1\<close>, and the
  assertion \<open>m <= num_args\<close> of \<open>apply_beta\<close> is violated.
\<close>

theorem apply_beta_no_args_counterexample:
  "apply_beta (Lambda ''x'' (Type Zero) (Var 0)) 0 [] = Inl Assertion_violation"
  by (simp add: apply_beta_def apply_beta_loop.simps)

text \<open>
  Claim C2, amended: for a lambda \<open>f\<close> with \<open>k\<close> leading lambdas and a non-empty
  argument list, \<open>apply_beta\<close> returns a result. With \<open>m\<close> the smaller of \<open>k\<close> and the
  number of arguments, the body of \<open>f\<close> under its first \<open>m\<close> lambdas is instantiated
  with the first \<open>m\<close> arguments. With more arguments than leading lambdas the result
  is the application of that expression to the arguments in excess; otherwise it is
  that expression, which is a lambda when the arguments are fewer than the leading
  lambdas.
\<close>

theorem apply_beta_lambda:
  assumes "is_lambda f" and "args \<noteq> []"
  shows "apply_beta f (length args) args =
           Inr (let m = min (num_lambdas f) (length args);
                    r = instantiate (strip_lambdas m f) 0 m args
                in if length args \<le> num_lambdas f then r else mk_app (r # drop m args))
         \<and> (length args < num_lambdas f \<longrightarrow>
              is_lambda (instantiate (strip_lambdas (length args) f) 0 (length args) args))"
proof -
  let ?k = "num_lambdas f" and ?n = "length args"
  have k: "0 < ?k" using assms(1) by (simp add: is_lambda_num_lambdas)
  have n: "0 < ?n" using assms(2) by simp
  have j: "1 + min (?k - 1) (?n - 1) = min ?k ?n" using k n by arith
  have j': "min (?k - 1) (?n - 1) = min ?k ?n - 1" using k n by arith
  have loop: "apply_beta_loop f 1 ?n = (strip_lambdas (min ?k ?n - 1) f, min ?k ?n)"
    using apply_beta_loop_eq[OF assms(1), of 1 ?n] j unfolding j' by simp
  have body: "abst_body (strip_lambdas (min ?k ?n - 1) f) = strip_lambdas (min ?k ?n) f"
    using k n by (simp add: abst_body_strip_lambdas)
  have "apply_beta f ?n args =
          (let r = instantiate (strip_lambdas (min ?k ?n) f) 0 (min ?k ?n) args
           in if min ?k ?n = ?n then Inr r
              else Inr (mk_app (r # map (\<lambda>i. args ! i) [min ?k ?n..<?n])))"
    unfolding apply_beta_def loop using assms(1) body by simp
  then have res: "apply_beta f ?n args =
           Inr (let m = min ?k ?n; r = instantiate (strip_lambdas m f) 0 m args
                in if ?n \<le> ?k then r else mk_app (r # drop m args))"
    by (auto simp: Let_def map_nth_upt_drop min_def)
  have "is_lambda (instantiate (strip_lambdas ?n f) 0 ?n args)" if "?n < ?k"
    using that by (simp add: is_lambda_instantiate is_lambda_strip_lambdas)
  with res show ?thesis by blast
qed

theorem apply_beta_lambda_witness:
  "is_lambda (Lambda ''x'' (Type Zero) (Lambda ''y'' (Type Zero) (App [Var 0, Var 1]))) \<and>
   [Constant ''a'' None, Constant ''b'' None, Constant ''c'' None] \<noteq> [] \<and>
   apply_beta (Lambda ''x'' (Type Zero) (Lambda ''y'' (Type Zero) (App [Var 0, Var 1]))) 3
       [Constant ''a'' None, Constant ''b'' None, Constant ''c'' None]
     = Inr (App [App [Constant ''b'' None, Constant ''a'' None], Constant ''c'' None])"
proof -
  let ?f = "Lambda ''x'' (Type Zero) (Lambda ''y'' (Type Zero) (App [Var 0, Var 1]))"
  let ?args = "[Constant ''a'' None, Constant ''b'' None, Constant ''c'' None]"
  have h1: "is_lambda ?f" by simp
  have h2: "?args \<noteq> []" by simp
  have i: "instantiate (App [Var 0, Var 1]) 0 2 ?args
             = App [Constant ''b'' None, Constant ''a'' None]"
    by (simp add: instantiate_def instantiate_core_def lift_free_vars_def replace.simps
        uadd_def usub_def)
  show ?thesis
    using apply_beta_lambda[OF h1 h2] i
    by (simp add: mk_app_def numeral_2_eq_2 numeral_3_eq_3)
qed


section \<open>Builtin integer arithmetic\<close>

definition mk_value :: "val \<Rightarrow> expr" where
  "mk_value v = Value v"

definition mk_int_value :: "int \<Rightarrow> expr" where
  "mk_int_value v = mk_value (int_value_value v)"

fun is_int_value :: "expr \<Rightarrow> bool" where
  "is_int_value (Value (int_value_value v)) = True"
| "is_int_value e = False"

text \<open>\<open>int_value_numeral\<close> asserts \<open>is_int_value\<close>; it is only called under that
  guard, elsewhere the model returns 0.\<close>

fun int_value_numeral :: "expr \<Rightarrow> int" where
  "int_value_numeral (Value (int_value_value v)) = v"
| "int_value_numeral e = 0"

text \<open>The quotient of two \<open>mpz\<close> numbers. The class \<open>mpz\<close> is not among the sources:
  its \<open>operator/\<close> is the quotient of the GNU MP library rounded towards zero,
  which traps on a zero divisor instead of returning a number.\<close>

definition mpz_div :: "int \<Rightarrow> int \<Rightarrow> error + int" where
  "mpz_div v1 v2 =
     (if v2 = 0 then Inl Division_by_zero
      else Inr (sgn v1 * sgn v2 * (\<bar>v1\<bar> div \<bar>v2\<bar>)))"

text \<open>The evaluators \<open>int_add_eval\<close>, \<open>int_sub_eval\<close>, \<open>int_mul_eval\<close> and
  \<open>int_div_eval\<close>: \<open>operator()(v1, v2)\<close>.\<close>

fun eval_op :: "int_eval \<Rightarrow> int \<Rightarrow> int \<Rightarrow> error + int" where
  "eval_op int_add_eval v1 v2 = Inr (v1 + v2)"
| "eval_op int_sub_eval v1 v2 = Inr (v1 - v2)"
| "eval_op int_mul_eval v1 v2 = Inr (v1 * v2)"
| "eval_op int_div_eval v1 v2 = mpz_div v1 v2"

text \<open>\<open>int_bin_op<Name, Hash, F>::normalize(num_args, args, r)\<close>: \<open>Inr (Some r)\<close> when
  the hook returns true and sets \<open>r\<close>, \<open>Inr None\<close> when it returns false. The
  entries \<open>args[1]\<close> and \<open>args[2]\<close> are read only after \<open>num_args == 3\<close>.\<close>

definition int_bin_op_normalize :: "int_eval \<Rightarrow> nat \<Rightarrow> expr list \<Rightarrow> error + expr option" where
  "int_bin_op_normalize F num_args args =
     (if num_args = 3 \<and> is_int_value (args ! 1) \<and> is_int_value (args ! 2) then
        (case eval_op F (int_value_numeral (args ! 1)) (int_value_numeral (args ! 2)) of
           Inl err \<Rightarrow> Inl err
         | Inr v \<Rightarrow> Inr (Some (mk_int_value v)))
      else Inr None)"

text \<open>For \<open>+\<close>, \<open>-\<close> and \<open>*\<close> the hook produces a result exactly on three entries
  whose last two are numerals, and the result is the numeral of the sum, difference
  or product; for \<open>div\<close> the same holds when the divisor is not zero.\<close>

lemma is_int_value_iff: "is_int_value e \<longleftrightarrow> (\<exists>v. e = Value (int_value_value v))"
  by (cases e rule: is_int_value.cases) auto

lemma int_bin_op_normalize_total:
  assumes "F \<noteq> int_div_eval"
  shows "int_bin_op_normalize F num_args args =
           (if num_args = 3 \<and> is_int_value (args ! 1) \<and> is_int_value (args ! 2)
            then Inr (Some (mk_int_value
                   ((case F of int_add_eval \<Rightarrow> (+) | int_sub_eval \<Rightarrow> (-) | _ \<Rightarrow> (*))
                      (int_value_numeral (args ! 1)) (int_value_numeral (args ! 2)))))
            else Inr None)"
  using assms by (cases F) (simp_all add: int_bin_op_normalize_def)

lemma int_bin_op_normalize_div:
  "int_bin_op_normalize int_div_eval 3 [op, mk_int_value v1, mk_int_value v2] =
     (if v2 = 0 then Inl Division_by_zero
      else Inr (Some (mk_int_value (sgn v1 * sgn v2 * (\<bar>v1\<bar> div \<bar>v2\<bar>)))))"
  by (simp add: int_bin_op_normalize_def mk_int_value_def mk_value_def mpz_div_def)

text \<open>
  Claim C10 at the operator \<open>div\<close> applied to the numerals 1 and 0: the hook is called
  with three entries whose arguments are numerals, and produces no result: the
  quotient by zero is evaluated.
\<close>

theorem int_div_normalize_zero_divisor:
  "int_bin_op_normalize int_div_eval 3
     [mk_value (int_bin_op int_div_eval), mk_int_value 1, mk_int_value 0]
   = Inl Division_by_zero"
  by (simp add: int_bin_op_normalize_def mk_int_value_def mk_value_def mpz_div_def)


section \<open>Expression cells\<close>

text \<open>
  The structural equality test and the maximal sharing traversal work on the cells
  of the term DAG. A cell has an address (\<open>raw()\<close>) and its contents by kind, with
  the children as cells. Cells are immutable but for the \<open>max_shared\<close> flag, so a
  shared sub-DAG is the same cell, with the same address, wherever it is used. The
  contents of a cell mirror the kinds of \<open>expr\<close>.
\<close>

datatype 'a node =
    NVar nat
  | NConstant name "'a option"
  | NValue val
  | NApp "'a list"
  | NLambda name 'a 'a
  | NPi name 'a 'a
  | NSigma name 'a 'a
  | NType level
  | NLet name "'a option" 'a 'a
  | NMetaVar name "'a local_entry list"
  | NHEq 'a 'a
  | NPair 'a 'a 'a
  | NProj bool 'a

datatype expr_cell = Cell (raw: nat) (node: "expr_cell node")

datatype expr_kind =
  Var_kind | Constant_kind | Value_kind | App_kind | Lambda_kind | Pi_kind | Sigma_kind
  | Type_kind | Let_kind | MetaVar_kind | HEq_kind | Pair_kind | Proj_kind

fun node_kind :: "'a node \<Rightarrow> expr_kind" where
  "node_kind (NVar i) = Var_kind"
| "node_kind (NConstant n t) = Constant_kind"
| "node_kind (NValue v) = Value_kind"
| "node_kind (NApp args) = App_kind"
| "node_kind (NLambda n t b) = Lambda_kind"
| "node_kind (NPi n t b) = Pi_kind"
| "node_kind (NSigma n t b) = Sigma_kind"
| "node_kind (NType l) = Type_kind"
| "node_kind (NLet n t v b) = Let_kind"
| "node_kind (NMetaVar n l) = MetaVar_kind"
| "node_kind (NHEq l r) = HEq_kind"
| "node_kind (NPair a b t) = Pair_kind"
| "node_kind (NProj i a) = Proj_kind"

definition kind :: "expr_cell \<Rightarrow> expr_kind" where
  "kind a = node_kind (node a)"

text \<open>The expression a cell stands for: its contents without the addresses.\<close>

fun node_expr :: "expr node \<Rightarrow> expr" where
  "node_expr (NVar i) = Var i"
| "node_expr (NConstant nm t) = Constant nm t"
| "node_expr (NValue v) = Value v"
| "node_expr (NApp args) = App args"
| "node_expr (NLambda nm t b) = Lambda nm t b"
| "node_expr (NPi nm t b) = Pi nm t b"
| "node_expr (NSigma nm t b) = ESigma nm t b"
| "node_expr (NType l) = Type l"
| "node_expr (NLet nm t v b) = ELet nm t v b"
| "node_expr (NMetaVar nm lctx) = MetaVar nm lctx"
| "node_expr (NHEq l r) = HEq l r"
| "node_expr (NPair a b t) = EPair a b t"
| "node_expr (NProj i a) = Proj i a"

primrec expr_of :: "expr_cell \<Rightarrow> expr" where
  "expr_of (Cell r n) = node_expr (map_node expr_of n)"

text \<open>The loop over the arguments of two applications, and \<open>compare\<close> on two
  local contexts (modelled from the spec: \<open>compare\<close> of \<open>util/list.h\<close> is not
  among the sources): the elements are compared in order with the state threaded
  through; the result is false at the first mismatch and when the lengths differ.\<close>

fun all2_st :: "('a \<Rightarrow> 'b \<Rightarrow> 's \<Rightarrow> bool \<times> 's) \<Rightarrow> 'a list \<Rightarrow> 'b list \<Rightarrow> 's \<Rightarrow> bool \<times> 's" where
  "all2_st f [] [] s = (True, s)"
| "all2_st f (x # xs) (y # ys) s =
     (case f x y s of
        (True, s') \<Rightarrow> all2_st f xs ys s'
      | (False, s') \<Rightarrow> (False, s'))"
| "all2_st f xs ys s = (False, s)"

lemma all2_st_cong [fundef_cong]:
  "xs = xs' \<Longrightarrow> ys = ys' \<Longrightarrow> s = s' \<Longrightarrow>
   (\<And>x y t. x \<in> set xs' \<Longrightarrow> y \<in> set ys' \<Longrightarrow> f x y t = g x y t) \<Longrightarrow>
   all2_st f xs ys s = all2_st g xs' ys' s'"
proof (induction g xs' ys' s' arbitrary: xs ys s rule: all2_st.induct)
  case (2 g x xs' y ys' s')
  then show ?case by (auto split: prod.splits bool.splits)
qed auto

type_synonym visited = "(nat \<times> nat) set"

text \<open>Accessors of a cell. The source calls each only on cells of its kind; on other
  cells the model returns a default.\<close>

fun var_idx :: "expr_cell \<Rightarrow> nat" where
  "var_idx (Cell r (NVar i)) = i"
| "var_idx a = 0"

fun const_name :: "expr_cell \<Rightarrow> name" where
  "const_name (Cell r (NConstant n t)) = n"
| "const_name a = []"

fun args_c :: "expr_cell \<Rightarrow> expr_cell list" where
  "args_c (Cell r (NApp as)) = as"
| "args_c a = []"

definition num_args_c :: "expr_cell \<Rightarrow> nat" where
  "num_args_c a = length (args_c a)"

fun abst_domain_c :: "expr_cell \<Rightarrow> expr_cell" where
  "abst_domain_c (Cell r (NLambda n t b)) = t"
| "abst_domain_c (Cell r (NPi n t b)) = t"
| "abst_domain_c (Cell r (NSigma n t b)) = t"
| "abst_domain_c a = a"

fun abst_body_c :: "expr_cell \<Rightarrow> expr_cell" where
  "abst_body_c (Cell r (NLambda n t b)) = b"
| "abst_body_c (Cell r (NPi n t b)) = b"
| "abst_body_c (Cell r (NSigma n t b)) = b"
| "abst_body_c a = a"

fun ty_level :: "expr_cell \<Rightarrow> level" where
  "ty_level (Cell r (NType l)) = l"
| "ty_level a = Zero"

fun to_value :: "expr_cell \<Rightarrow> val option" where
  "to_value (Cell r (NValue v)) = Some v"
| "to_value a = None"

fun let_type :: "expr_cell \<Rightarrow> expr_cell option" where
  "let_type (Cell r (NLet n t v b)) = t"
| "let_type a = None"

fun let_value :: "expr_cell \<Rightarrow> expr_cell" where
  "let_value (Cell r (NLet n t v b)) = v"
| "let_value a = a"

fun let_body :: "expr_cell \<Rightarrow> expr_cell" where
  "let_body (Cell r (NLet n t v b)) = b"
| "let_body a = a"

fun metavar_name :: "expr_cell \<Rightarrow> name" where
  "metavar_name (Cell r (NMetaVar n l)) = n"
| "metavar_name a = []"

fun metavar_lctx :: "expr_cell \<Rightarrow> expr_cell local_entry list" where
  "metavar_lctx (Cell r (NMetaVar n l)) = l"
| "metavar_lctx a = []"

fun heq_lhs :: "expr_cell \<Rightarrow> expr_cell" where
  "heq_lhs (Cell r (NHEq l rh)) = l"
| "heq_lhs a = a"

fun heq_rhs :: "expr_cell \<Rightarrow> expr_cell" where
  "heq_rhs (Cell r (NHEq l rh)) = rh"
| "heq_rhs a = a"

fun pair_first :: "expr_cell \<Rightarrow> expr_cell" where
  "pair_first (Cell r (NPair f s t)) = f"
| "pair_first a = a"

fun pair_second :: "expr_cell \<Rightarrow> expr_cell" where
  "pair_second (Cell r (NPair f s t)) = s"
| "pair_second a = a"

fun pair_type :: "expr_cell \<Rightarrow> expr_cell" where
  "pair_type (Cell r (NPair f s t)) = t"
| "pair_type a = a"

fun proj_first :: "expr_cell \<Rightarrow> bool" where
  "proj_first (Cell r (NProj i x)) = i"
| "proj_first a = False"

fun proj_arg :: "expr_cell \<Rightarrow> expr_cell" where
  "proj_arg (Cell r (NProj i x)) = x"
| "proj_arg a = a"

text \<open>\<open>A && B\<close> where both sides thread the visited set: \<open>B\<close> runs only when
  \<open>A\<close> is true.\<close>

definition seq_and :: "bool \<times> 's \<Rightarrow> ('s \<Rightarrow> bool \<times> 's) \<Rightarrow> bool \<times> 's" where
  "seq_and r k = (if fst r then k (snd r) else r)"

lemma size_local_entry_estimation:
  "x \<in> set_local_entry e \<Longrightarrow> f x < size_local_entry f e"
  by (cases e) auto

lemma size_node_estimation: "x \<in> set_node n \<Longrightarrow> f x < Suc (size_node f n)"
proof (cases n)
  case (NApp as)
  assume "x \<in> set_node n"
  then have "x \<in> set as" using NApp by simp
  then have "f x \<le> size_list f as" by (rule size_list_estimation') simp
  then show ?thesis using NApp by simp
next
  case (NMetaVar nm l)
  assume "x \<in> set_node n"
  then obtain e where e: "e \<in> set l" "x \<in> set_local_entry e" using NMetaVar by auto
  have "f x < size_local_entry f e" using e(2) by (rule size_local_entry_estimation)
  moreover have "size_local_entry f e \<le> size_list (size_local_entry f) l"
    using e(1) by (rule size_list_estimation') simp
  ultimately show ?thesis using NMetaVar by simp
qed (auto split: option.splits)

lemma inst_in_lctx: "Inst s v \<in> set l \<Longrightarrow> \<exists>x\<in>set l. v \<in> set_local_entry x"
  by (rule bexI[of _ "Inst s v"]) auto

lemma size_child: "x \<in> set_node (node a) \<Longrightarrow> size x < size a"
  using size_node_estimation[of x "node a" size] by (cases a) simp

text \<open>
  \<open>expr_eq_fn<N, UseHash>::apply\<close> of \<open>expr_eq.h\<close> for the default parameters
  (\<open>N\<close> the identity, \<open>UseHash = true\<close>), with the visited set \<open>m_eq_visited\<close>
  passed in and returned (an unallocated set is the empty set). The cached hash and
  the reference count of a cell are read by address through \<open>hash\<close> and
  \<open>is_shared\<close>; the constructors that fill them in are not among the sources.
  For \<open>HEq\<close>, \<open>Pair\<close> and \<open>Proj\<close> the source compares the components with
  \<open>operator==\<close> (modelled from the spec: \<open>expr.h\<close> is not among the sources; the
  structural equality on a visited set of its own). \<open>check_system\<close> is not
  modelled: no interruption is requested.
\<close>

function expr_eq_apply ::
  "(nat \<Rightarrow> nat) \<Rightarrow> (nat \<Rightarrow> bool) \<Rightarrow> expr_cell \<Rightarrow> expr_cell \<Rightarrow> visited \<Rightarrow> bool \<times> visited" where
  "expr_eq_apply hash is_shared a b vis =
     (if raw a = raw b then (True, vis)
      else if hash (raw a) \<noteq> hash (raw b) then (False, vis)
      else if kind a \<noteq> kind b then (False, vis)
      else if kind a = Var_kind then (var_idx a = var_idx b, vis)
      else if is_shared (raw a) \<and> is_shared (raw b) \<and> (raw a, raw b) \<in> vis then (True, vis)
      else
        let vis1 = (if is_shared (raw a) \<and> is_shared (raw b)
                    then insert (raw a, raw b) vis else vis)
        in
        (case node a of
           NVar i \<Rightarrow> (False, vis1)
         | NConstant n t \<Rightarrow> (n = const_name b, vis1)
         | NApp as \<Rightarrow>
             if length as \<noteq> num_args_c b then (False, vis1)
             else all2_st (expr_eq_apply hash is_shared) as (args_c b) vis1
         | NHEq l r \<Rightarrow>
             (fst (expr_eq_apply hash is_shared l (heq_lhs b) {}) \<and>
              fst (expr_eq_apply hash is_shared r (heq_rhs b) {}), vis1)
         | NPair f s t \<Rightarrow>
             (fst (expr_eq_apply hash is_shared f (pair_first b) {}) \<and>
              fst (expr_eq_apply hash is_shared s (pair_second b) {}) \<and>
              fst (expr_eq_apply hash is_shared t (pair_type b) {}), vis1)
         | NProj i x \<Rightarrow>
             (i = proj_first b \<and> fst (expr_eq_apply hash is_shared x (proj_arg b) {}), vis1)
         | NSigma n t bd \<Rightarrow>
             seq_and (expr_eq_apply hash is_shared t (abst_domain_c b) vis1)
               (expr_eq_apply hash is_shared bd (abst_body_c b))
         | NLambda n t bd \<Rightarrow>
             seq_and (expr_eq_apply hash is_shared t (abst_domain_c b) vis1)
               (expr_eq_apply hash is_shared bd (abst_body_c b))
         | NPi n t bd \<Rightarrow>
             seq_and (expr_eq_apply hash is_shared t (abst_domain_c b) vis1)
               (expr_eq_apply hash is_shared bd (abst_body_c b))
         | NType l \<Rightarrow> (l = ty_level b, vis1)
         | NValue v \<Rightarrow> (Some v = to_value b, vis1)
         | NLet n t v bd \<Rightarrow>
             seq_and
               (seq_and
                  (case (t, let_type b) of
                     (None, None) \<Rightarrow> (True, vis1)
                   | (Some t1, Some t2) \<Rightarrow> expr_eq_apply hash is_shared t1 t2 vis1
                   | _ \<Rightarrow> (False, vis1))
                  (expr_eq_apply hash is_shared v (let_value b)))
               (expr_eq_apply hash is_shared bd (let_body b))
         | NMetaVar n l \<Rightarrow>
             if n \<noteq> metavar_name b then (False, vis1)
             else all2_st
                    (\<lambda>e1 e2 s.
                       case (e1, e2) of
                         (Inst s1 v1, Inst s2 v2) \<Rightarrow>
                           if s1 \<noteq> s2 then (False, s) else expr_eq_apply hash is_shared v1 v2 s
                       | (Lift s1 n1, Lift s2 n2) \<Rightarrow> (s1 = s2 \<and> n1 = n2, s)
                       | _ \<Rightarrow> (False, s))
                    l (metavar_lctx b) vis1))"
  by pat_completeness auto
termination
  apply (relation "measure (\<lambda>(h, s, a, b, v). size a)")
  by (auto intro!: size_child inst_in_lctx)

definition expr_eq_fn :: "(nat \<Rightarrow> nat) \<Rightarrow> (nat \<Rightarrow> bool) \<Rightarrow> expr_cell \<Rightarrow> expr_cell \<Rightarrow> bool" where
  "expr_eq_fn hash is_shared a b = fst (expr_eq_apply hash is_shared a b {})"

text \<open>
  Modelled from the spec: alpha-equivalence is structural equality that ignores the
  name hints and is exact on everything else. \<open>erase_names\<close> blanks the name hints
  of \<open>Lambda\<close>, \<open>Pi\<close>, \<open>Sigma\<close> and \<open>Let\<close>, and drops the cached type of a
  constant, which is not a component of \<open>Const\<close> in the data model; two expressions
  are alpha-equivalent when they are equal after that.
\<close>

primrec erase_names :: "expr \<Rightarrow> expr" where
  "erase_names (Var i) = Var i"
| "erase_names (Constant n t) = Constant n None"
| "erase_names (Value v) = Value v"
| "erase_names (App as) = App (map erase_names as)"
| "erase_names (Lambda n t b) = Lambda [] (erase_names t) (erase_names b)"
| "erase_names (Pi n t b) = Pi [] (erase_names t) (erase_names b)"
| "erase_names (ESigma n t b) = ESigma [] (erase_names t) (erase_names b)"
| "erase_names (Type l) = Type l"
| "erase_names (ELet n t v b) =
     ELet [] (map_option erase_names t) (erase_names v) (erase_names b)"
| "erase_names (MetaVar n l) = MetaVar n (map (map_local_entry erase_names) l)"
| "erase_names (HEq l r) = HEq (erase_names l) (erase_names r)"
| "erase_names (EPair a b t) = EPair (erase_names a) (erase_names b) (erase_names t)"
| "erase_names (Proj i a) = Proj i (erase_names a)"

definition alpha_eq :: "expr \<Rightarrow> expr \<Rightarrow> bool" where
  "alpha_eq e1 e2 \<longleftrightarrow> erase_names e1 = erase_names e2"

definition alpha_c :: "expr_cell \<Rightarrow> expr_cell \<Rightarrow> bool" where
  "alpha_c a b \<longleftrightarrow> alpha_eq (expr_of a) (expr_of b)"

text \<open>The visited set during a comparison that has not failed: a pair of addresses
  in it is a pair of alpha-equivalent cells, or a pair under comparison, whose first
  cell has size at least \<open>k\<close>.\<close>

definition good :: "expr_cell set \<Rightarrow> nat \<Rightarrow> visited \<Rightarrow> bool" where
  "good U k vis \<longleftrightarrow>
     (\<forall>x\<in>U. \<forall>y\<in>U. (raw x, raw y) \<in> vis \<longrightarrow> alpha_c x y \<or> k \<le> size x)"

declare expr_eq_apply.simps [simp del]

subsection \<open>Correctness of the comparison\<close>

lemma good_mono: "good U k vis \<Longrightarrow> k' \<le> k \<Longrightarrow> good U k' vis"
  unfolding good_def by (meson order_trans)

lemma good_empty: "good U k {}"
  by (simp add: good_def)

lemma seq_and_rule:
  assumes "fst r = A \<and> (fst r \<longrightarrow> Q (snd r))"
    and "\<And>s. Q s \<Longrightarrow> fst (k s) = B \<and> (fst (k s) \<longrightarrow> Q' (snd (k s)))"
  shows "fst (seq_and r k) = (A \<and> B) \<and> (fst (seq_and r k) \<longrightarrow> Q' (snd (seq_and r k)))"
  using assms by (auto simp: seq_and_def)

lemma all2_st_rule:
  assumes "\<And>x y s. x \<in> set xs \<Longrightarrow> y \<in> set ys \<Longrightarrow> I s \<Longrightarrow>
             fst (f x y s) = R x y \<and> (fst (f x y s) \<longrightarrow> I (snd (f x y s)))"
    and "I s"
  shows "fst (all2_st f xs ys s) = list_all2 R xs ys \<and>
         (fst (all2_st f xs ys s) \<longrightarrow> I (snd (all2_st f xs ys s)))"
  using assms
proof (induction f xs ys s rule: all2_st.induct)
  case (2 f x xs y ys s)
  have step: "fst (f x y s) = R x y \<and> (fst (f x y s) \<longrightarrow> I (snd (f x y s)))"
    using "2.prems" by simp
  show ?case
  proof (cases "f x y s")
    case (Pair r s')
    show ?thesis
    proof (cases r)
      case True
      then have "I s'" using step Pair by simp
      then have "fst (all2_st f xs ys s') = list_all2 R xs ys \<and>
         (fst (all2_st f xs ys s') \<longrightarrow> I (snd (all2_st f xs ys s')))"
        using "2.IH" "2.prems"(1) Pair True by auto
      then show ?thesis using Pair True step by simp
    next
      case False
      then show ?thesis using Pair step by simp
    qed
  qed
qed auto

lemma alpha_c_refl: "alpha_c a a"
  by (simp add: alpha_c_def alpha_eq_def)

lemma map_eq_list_all2: "map f xs = map g ys \<longleftrightarrow> list_all2 (\<lambda>x y. f x = g y) xs ys"
  by (induction xs arbitrary: ys) (auto simp: list_all2_Cons1)

lemma expr_eq_apply_eqp: "raw a = raw b \<Longrightarrow> expr_eq_apply hash sh a b vis = (True, vis)"
  by (subst expr_eq_apply.simps) simp

lemma expr_eq_apply_hash:
  "raw a \<noteq> raw b \<Longrightarrow> hash (raw a) \<noteq> hash (raw b) \<Longrightarrow>
   expr_eq_apply hash sh a b vis = (False, vis)"
  by (subst expr_eq_apply.simps) simp

lemma expr_eq_apply_kind:
  "raw a \<noteq> raw b \<Longrightarrow> hash (raw a) = hash (raw b) \<Longrightarrow> kind a \<noteq> kind b \<Longrightarrow>
   expr_eq_apply hash sh a b vis = (False, vis)"
  by (subst expr_eq_apply.simps) simp

lemma expr_eq_apply_var:
  "raw a \<noteq> raw b \<Longrightarrow> hash (raw a) = hash (raw b) \<Longrightarrow> kind a = kind b \<Longrightarrow>
   kind a = Var_kind \<Longrightarrow>
   expr_eq_apply hash sh a b vis = (var_idx a = var_idx b, vis)"
  by (subst expr_eq_apply.simps) simp

lemma expr_eq_apply_visited:
  "raw a \<noteq> raw b \<Longrightarrow> hash (raw a) = hash (raw b) \<Longrightarrow> kind a = kind b \<Longrightarrow>
   kind a \<noteq> Var_kind \<Longrightarrow> sh (raw a) \<and> sh (raw b) \<and> (raw a, raw b) \<in> vis \<Longrightarrow>
   expr_eq_apply hash sh a b vis = (True, vis)"
  by (subst expr_eq_apply.simps) simp


definition visit :: "(nat \<Rightarrow> bool) \<Rightarrow> expr_cell \<Rightarrow> expr_cell \<Rightarrow> visited \<Rightarrow> visited" where
  "visit sh a b vis = (if sh (raw a) \<and> sh (raw b) then insert (raw a, raw b) vis else vis)"

lemma expr_eq_apply_node:
  assumes "raw a \<noteq> raw b" "hash (raw a) = hash (raw b)" "kind a = kind b"
    "kind a \<noteq> Var_kind" "\<not> (sh (raw a) \<and> sh (raw b) \<and> (raw a, raw b) \<in> vis)"
  shows "expr_eq_apply hash sh a b vis =
              (case node a of
                 NVar i \<Rightarrow> (False, visit sh a b vis)
               | NConstant n t \<Rightarrow> (n = const_name b, visit sh a b vis)
               | NApp as \<Rightarrow>
                   if length as \<noteq> num_args_c b then (False, visit sh a b vis)
                   else all2_st (expr_eq_apply hash sh) as (args_c b) (visit sh a b vis)
               | NHEq l r \<Rightarrow>
                   (fst (expr_eq_apply hash sh l (heq_lhs b) {}) \<and>
                    fst (expr_eq_apply hash sh r (heq_rhs b) {}), visit sh a b vis)
               | NPair f s t \<Rightarrow>
                   (fst (expr_eq_apply hash sh f (pair_first b) {}) \<and>
                    fst (expr_eq_apply hash sh s (pair_second b) {}) \<and>
                    fst (expr_eq_apply hash sh t (pair_type b) {}), visit sh a b vis)
               | NProj i x \<Rightarrow>
                   (i = proj_first b \<and> fst (expr_eq_apply hash sh x (proj_arg b) {}), visit sh a b vis)
               | NSigma n t bd \<Rightarrow>
                   seq_and (expr_eq_apply hash sh t (abst_domain_c b) (visit sh a b vis))
                     (expr_eq_apply hash sh bd (abst_body_c b))
               | NLambda n t bd \<Rightarrow>
                   seq_and (expr_eq_apply hash sh t (abst_domain_c b) (visit sh a b vis))
                     (expr_eq_apply hash sh bd (abst_body_c b))
               | NPi n t bd \<Rightarrow>
                   seq_and (expr_eq_apply hash sh t (abst_domain_c b) (visit sh a b vis))
                     (expr_eq_apply hash sh bd (abst_body_c b))
               | NType l \<Rightarrow> (l = ty_level b, visit sh a b vis)
               | NValue v \<Rightarrow> (Some v = to_value b, visit sh a b vis)
               | NLet n t v bd \<Rightarrow>
                   seq_and
                     (seq_and
                        (case (t, let_type b) of
                           (None, None) \<Rightarrow> (True, visit sh a b vis)
                         | (Some t1, Some t2) \<Rightarrow> expr_eq_apply hash sh t1 t2 (visit sh a b vis)
                         | _ \<Rightarrow> (False, visit sh a b vis))
                        (expr_eq_apply hash sh v (let_value b)))
                     (expr_eq_apply hash sh bd (let_body b))
               | NMetaVar n l \<Rightarrow>
                   if n \<noteq> metavar_name b then (False, visit sh a b vis)
                   else all2_st
                          (\<lambda>e1 e2 s.
                             case (e1, e2) of
                               (Inst s1 v1, Inst s2 v2) \<Rightarrow>
                                 if s1 \<noteq> s2 then (False, s) else expr_eq_apply hash sh v1 v2 s
                             | (Lift s1 n1, Lift s2 n2) \<Rightarrow> (s1 = s2 \<and> n1 = n2, s)
                             | _ \<Rightarrow> (False, s))
                          l (metavar_lctx b) (visit sh a b vis))"
  apply (subst expr_eq_apply.simps)
  using assms apply (simp only: if_False if_True simp_thms Let_def visit_def[symmetric])
  done

lemma alpha_c_node:
  "alpha_c a b \<longleftrightarrow>
     erase_names (node_expr (map_node expr_of (node a))) =
     erase_names (node_expr (map_node expr_of (node b)))"
  by (cases a; cases b) (simp add: alpha_c_def alpha_eq_def)

lemma alpha_c_fold: "erase_names (expr_of x) = erase_names (expr_of y) \<longleftrightarrow> alpha_c x y"
  by (simp add: alpha_c_def alpha_eq_def)

lemma alpha_c_kind: "alpha_c a b \<Longrightarrow> kind a = kind b"
  unfolding alpha_c_node kind_def by (cases "node a"; cases "node b"; simp)

fun entry_rel :: "expr_cell local_entry \<Rightarrow> expr_cell local_entry \<Rightarrow> bool" where
  "entry_rel (Inst s1 v1) (Inst s2 v2) = (s1 = s2 \<and> alpha_c v1 v2)"
| "entry_rel (Lift s1 n1) (Lift s2 n2) = (s1 = s2 \<and> n1 = n2)"
| "entry_rel e1 e2 = False"

lemma entry_rel_iff:
  "map_local_entry erase_names (map_local_entry expr_of e1) =
   map_local_entry erase_names (map_local_entry expr_of e2) \<longleftrightarrow> entry_rel e1 e2"
  by (cases e1; cases e2) (simp_all add: alpha_c_fold)

lemma alpha_c_App:
  "node a = NApp as \<Longrightarrow> node b = NApp bs \<Longrightarrow> alpha_c a b \<longleftrightarrow> list_all2 alpha_c as bs"
  by (simp add: alpha_c_node[of a b] map_eq_list_all2 alpha_c_fold)

lemma alpha_c_MetaVar:
  "node a = NMetaVar n l \<Longrightarrow> node b = NMetaVar n' l' \<Longrightarrow>
   alpha_c a b \<longleftrightarrow> n = n' \<and> list_all2 entry_rel l l'"
  by (simp add: alpha_c_node[of a b] map_eq_list_all2 entry_rel_iff)

lemma alpha_c_Let:
  "node a = NLet n t v bd \<Longrightarrow> node b = NLet n' t' v' bd' \<Longrightarrow>
   alpha_c a b \<longleftrightarrow>
     (case (t, t') of (None, None) \<Rightarrow> True | (Some t1, Some t2) \<Rightarrow> alpha_c t1 t2
        | _ \<Rightarrow> False) \<and> alpha_c v v' \<and> alpha_c bd bd'"
  by (cases t; cases t') (simp_all add: alpha_c_node[of a b] alpha_c_fold)


lemma kindD:
  "kind b = Var_kind \<Longrightarrow> \<exists>i. node b = NVar i"
  "kind b = Constant_kind \<Longrightarrow> \<exists>n t. node b = NConstant n t"
  "kind b = Value_kind \<Longrightarrow> \<exists>v. node b = NValue v"
  "kind b = App_kind \<Longrightarrow> \<exists>as. node b = NApp as"
  "kind b = Lambda_kind \<Longrightarrow> \<exists>n t bd. node b = NLambda n t bd"
  "kind b = Pi_kind \<Longrightarrow> \<exists>n t bd. node b = NPi n t bd"
  "kind b = Sigma_kind \<Longrightarrow> \<exists>n t bd. node b = NSigma n t bd"
  "kind b = Type_kind \<Longrightarrow> \<exists>l. node b = NType l"
  "kind b = Let_kind \<Longrightarrow> \<exists>n t v bd. node b = NLet n t v bd"
  "kind b = MetaVar_kind \<Longrightarrow> \<exists>n l. node b = NMetaVar n l"
  "kind b = HEq_kind \<Longrightarrow> \<exists>l r. node b = NHEq l r"
  "kind b = Pair_kind \<Longrightarrow> \<exists>f s t. node b = NPair f s t"
  "kind b = Proj_kind \<Longrightarrow> \<exists>i x. node b = NProj i x"
  by (cases "node b"; simp add: kind_def)+

text \<open>On cells of a set \<open>U\<close> that is closed under taking children, where an
  address holds one cell and alpha-equivalent cells cache the same hash: from a
  visited set whose pairs are alpha-equivalent or larger than \<open>a\<close>, the
  comparison answers alpha-equivalence, and when it answers true every pair it added
  is a pair of alpha-equivalent cells.\<close>

lemma expr_eq_apply_correct:
  assumes clo: "\<And>x. x \<in> U \<Longrightarrow> set_node (node x) \<subseteq> U"
    and W1: "\<And>x y. x \<in> U \<Longrightarrow> y \<in> U \<Longrightarrow> raw x = raw y \<Longrightarrow> x = y"
    and W2: "\<And>x y. x \<in> U \<Longrightarrow> y \<in> U \<Longrightarrow> alpha_c x y \<Longrightarrow> hash (raw x) = hash (raw y)"
  shows "a \<in> U \<Longrightarrow> b \<in> U \<Longrightarrow> good U (Suc (size a)) vis \<Longrightarrow>
     fst (expr_eq_apply hash sh a b vis) = alpha_c a b \<and>
     (fst (expr_eq_apply hash sh a b vis) \<longrightarrow>
        (\<forall>k. good U k vis \<longrightarrow> good U k (snd (expr_eq_apply hash sh a b vis))))"
proof (induction "size a" arbitrary: a b vis rule: less_induct)
  case less
  note aU = less.prems(1) and bU = less.prems(2) and pre = less.prems(3)
  let ?res = "expr_eq_apply hash sh a b vis"
  show ?case
  proof (cases "raw a = raw b")
    case True
    then have "a = b" using W1 aU bU by blast
    then show ?thesis using True by (simp add: expr_eq_apply_eqp alpha_c_refl)
  next
    case neq: False
    show ?thesis
    proof (cases "hash (raw a) = hash (raw b)")
      case False
      then have "\<not> alpha_c a b" using W2 aU bU by blast
      then show ?thesis using neq False by (simp add: expr_eq_apply_hash)
    next
      case heq: True
      show ?thesis
      proof (cases "kind a = kind b")
        case False
        then have "\<not> alpha_c a b" using alpha_c_kind by blast
        then show ?thesis using neq heq False by (simp add: expr_eq_apply_kind)
      next
        case keq: True
        show ?thesis
        proof (cases "kind a = Var_kind")
          case True
          then obtain i j where ab: "node a = NVar i" "node b = NVar j"
            using keq kindD(1)[of a] kindD(1)[of b] by auto
          have "var_idx a = i" using ab by (cases a) simp
          moreover have "var_idx b = j" using ab by (cases b) simp
          moreover have "alpha_c a b \<longleftrightarrow> i = j"
            using ab by (simp add: alpha_c_node[of a b])
          ultimately show ?thesis
            using neq heq keq True by (simp add: expr_eq_apply_var)
        next
          case nvar: False
          show ?thesis
          proof (cases "sh (raw a) \<and> sh (raw b) \<and> (raw a, raw b) \<in> vis")
            case True
            then have "alpha_c a b" using pre aU bU unfolding good_def by fastforce
            then show ?thesis
              using neq heq keq nvar True by (simp add: expr_eq_apply_visited)
          next
            case nvis: False
            define vis1 where "vis1 = visit sh a b vis"
            define I where
              "I s \<longleftrightarrow> good U (size a) s \<and> (\<forall>k. good U k vis1 \<longrightarrow> good U k s)" for s
            note res = expr_eq_apply_node[OF neq heq keq nvar nvis, folded vis1_def]
            have g1: "good U (size a) vis1"
            proof -
              have "good U (size a) vis" using pre by (rule good_mono) simp
              moreover have "x = a" if "x \<in> U" "raw x = raw a" for x
                using W1 that aU by blast
              ultimately show ?thesis unfolding vis1_def visit_def good_def by auto
            qed
            have I1: "I vis1" using g1 by (simp add: I_def)
            have child: "fst (expr_eq_apply hash sh c d s) = alpha_c c d \<and>
                         (fst (expr_eq_apply hash sh c d s) \<longrightarrow> I (snd (expr_eq_apply hash sh c d s)))"
              if c: "c \<in> set_node (node a)" and d: "d \<in> U" and s: "I s" for c d s
            proof -
              have sz: "size c < size a" using c by (rule size_child)
              have cU: "c \<in> U" using clo[OF aU] c by blast
              have "good U (Suc (size c)) s"
                using s sz unfolding I_def by (meson good_mono Suc_leI)
              from less.hyps[OF sz cU d this] s show ?thesis
                unfolding I_def by blast
            qed
            have fresh: "fst (expr_eq_apply hash sh c d {}) = alpha_c c d"
              if c: "c \<in> set_node (node a)" and d: "d \<in> U" for c d
            proof -
              have sz: "size c < size a" using c by (rule size_child)
              have cU: "c \<in> U" using clo[OF aU] c by blast
              from less.hyps[OF sz cU d good_empty] show ?thesis by blast
            qed
            have bch: "set_node (node b) \<subseteq> U" using clo[OF bU] .
            have fin: "fst r = alpha_c a b \<and>
                  (fst r \<longrightarrow> (\<forall>k. good U k vis \<longrightarrow> good U k (snd r)))"
              if "fst r = alpha_c a b \<and> (fst r \<longrightarrow> I (snd r))" for r
            proof -
              have "good U k vis1" if "alpha_c a b" "good U k vis" for k
              proof -
                have "x = a" if "x \<in> U" "raw x = raw a" for x
                  using W1 that aU by blast
                moreover have "y = b" if "y \<in> U" "raw y = raw b" for y
                  using W1 that bU by blast
                ultimately show ?thesis
                  using \<open>alpha_c a b\<close> \<open>good U k vis\<close> unfolding vis1_def visit_def good_def by auto
              qed
              then show ?thesis using that unfolding I_def by blast
            qed
            have "fst ?res = alpha_c a b \<and> (fst ?res \<longrightarrow> I (snd ?res))"
            proof (cases "node a")
              case (NVar i)
              then show ?thesis using nvar by (simp add: kind_def)
            next
              case (NConstant n t)
              then obtain n' t' where b: "node b = NConstant n' t'"
                using keq kindD(2)[of b] by (auto simp: kind_def)
              have "const_name b = n'" using b by (cases b) simp
              then show ?thesis
                using NConstant b I1 by (simp add: res alpha_c_node[of a b])
            next
              case (NValue v)
              then obtain v' where b: "node b = NValue v'"
                using keq kindD(3)[of b] by (auto simp: kind_def)
              have "to_value b = Some v'" using b by (cases b) simp
              then show ?thesis
                using NValue b I1 by (simp add: res alpha_c_node[of a b])
            next
              case (NType l)
              then obtain l' where b: "node b = NType l'"
                using keq kindD(8)[of b] by (auto simp: kind_def)
              have "ty_level b = l'" using b by (cases b) simp
              then show ?thesis
                using NType b I1 by (simp add: res alpha_c_node[of a b])
            next
              case (NApp as)
              then obtain bs where b: "node b = NApp bs"
                using keq kindD(4)[of b] by (auto simp: kind_def)
              have ab: "args_c b = bs" "num_args_c b = length bs"
                using b by (cases b; simp add: num_args_c_def)+
              have al: "alpha_c a b \<longleftrightarrow> list_all2 alpha_c as bs"
                using NApp b by (rule alpha_c_App)
              show ?thesis
              proof (cases "length as = length bs")
                case False
                then have "\<not> list_all2 alpha_c as bs" by (auto dest: list_all2_lengthD)
                then show ?thesis using False NApp ab al by (simp add: res)
              next
                case True
                have "fst (all2_st (expr_eq_apply hash sh) as bs vis1) = list_all2 alpha_c as bs \<and>
                      (fst (all2_st (expr_eq_apply hash sh) as bs vis1) \<longrightarrow>
                         I (snd (all2_st (expr_eq_apply hash sh) as bs vis1)))"
                proof (rule all2_st_rule[where I = I, OF _ I1])
                  fix x y s assume "x \<in> set as" "y \<in> set bs" "I s"
                  then show "fst (expr_eq_apply hash sh x y s) = alpha_c x y \<and>
                     (fst (expr_eq_apply hash sh x y s) \<longrightarrow> I (snd (expr_eq_apply hash sh x y s)))"
                    using child[of x y s] NApp b bch by auto
                qed
                then show ?thesis using True NApp ab al by (simp add: res)
              qed
            next
              case (NLambda n t bd)
              then obtain n' t' bd' where b: "node b = NLambda n' t' bd'"
                using keq kindD(5)[of b] by (auto simp: kind_def)
              have ab: "abst_domain_c b = t'" "abst_body_c b = bd'"
                using b by (cases b; simp)+
              have al: "alpha_c a b \<longleftrightarrow> alpha_c t t' \<and> alpha_c bd bd'"
                using NLambda b by (simp add: alpha_c_node[of a b] alpha_c_fold)
              have "fst (seq_and (expr_eq_apply hash sh t t' vis1) (expr_eq_apply hash sh bd bd'))
                      = (alpha_c t t' \<and> alpha_c bd bd') \<and>
                    (fst (seq_and (expr_eq_apply hash sh t t' vis1) (expr_eq_apply hash sh bd bd'))
                      \<longrightarrow> I (snd (seq_and (expr_eq_apply hash sh t t' vis1)
                                     (expr_eq_apply hash sh bd bd'))))"
                by (rule seq_and_rule[where Q = I])
                   (use child NLambda b bch I1 in auto)
              then show ?thesis using NLambda ab al by (simp add: res)
            next
              case (NPi n t bd)
              then obtain n' t' bd' where b: "node b = NPi n' t' bd'"
                using keq kindD(6)[of b] by (auto simp: kind_def)
              have ab: "abst_domain_c b = t'" "abst_body_c b = bd'"
                using b by (cases b; simp)+
              have al: "alpha_c a b \<longleftrightarrow> alpha_c t t' \<and> alpha_c bd bd'"
                using NPi b by (simp add: alpha_c_node[of a b] alpha_c_fold)
              have "fst (seq_and (expr_eq_apply hash sh t t' vis1) (expr_eq_apply hash sh bd bd'))
                      = (alpha_c t t' \<and> alpha_c bd bd') \<and>
                    (fst (seq_and (expr_eq_apply hash sh t t' vis1) (expr_eq_apply hash sh bd bd'))
                      \<longrightarrow> I (snd (seq_and (expr_eq_apply hash sh t t' vis1)
                                     (expr_eq_apply hash sh bd bd'))))"
                by (rule seq_and_rule[where Q = I])
                   (use child NPi b bch I1 in auto)
              then show ?thesis using NPi ab al by (simp add: res)
            next
              case (NSigma n t bd)
              then obtain n' t' bd' where b: "node b = NSigma n' t' bd'"
                using keq kindD(7)[of b] by (auto simp: kind_def)
              have ab: "abst_domain_c b = t'" "abst_body_c b = bd'"
                using b by (cases b; simp)+
              have al: "alpha_c a b \<longleftrightarrow> alpha_c t t' \<and> alpha_c bd bd'"
                using NSigma b by (simp add: alpha_c_node[of a b] alpha_c_fold)
              have "fst (seq_and (expr_eq_apply hash sh t t' vis1) (expr_eq_apply hash sh bd bd'))
                      = (alpha_c t t' \<and> alpha_c bd bd') \<and>
                    (fst (seq_and (expr_eq_apply hash sh t t' vis1) (expr_eq_apply hash sh bd bd'))
                      \<longrightarrow> I (snd (seq_and (expr_eq_apply hash sh t t' vis1)
                                     (expr_eq_apply hash sh bd bd'))))"
                by (rule seq_and_rule[where Q = I])
                   (use child NSigma b bch I1 in auto)
              then show ?thesis using NSigma ab al by (simp add: res)
            next
              case (NLet n t v bd)
              then obtain n' t' v' bd' where b: "node b = NLet n' t' v' bd'"
                using keq kindD(9)[of b] by (auto simp: kind_def)
              have ab: "let_type b = t'" "let_value b = v'" "let_body b = bd'"
                using b by (cases b; simp)+
              have al: "alpha_c a b \<longleftrightarrow>
                  (case (t, t') of (None, None) \<Rightarrow> True | (Some t1, Some t2) \<Rightarrow> alpha_c t1 t2
                     | _ \<Rightarrow> False) \<and> alpha_c v v' \<and> alpha_c bd bd'"
                using NLet b by (rule alpha_c_Let)
              let ?ty = "case (t, t') of
                           (None, None) \<Rightarrow> (True, vis1)
                         | (Some t1, Some t2) \<Rightarrow> expr_eq_apply hash sh t1 t2 vis1
                         | _ \<Rightarrow> (False, vis1)"
              have ty: "fst ?ty = (case (t, t') of (None, None) \<Rightarrow> True
                           | (Some t1, Some t2) \<Rightarrow> alpha_c t1 t2 | _ \<Rightarrow> False) \<and>
                        (fst ?ty \<longrightarrow> I (snd ?ty))"
                using child[of _ _ vis1] NLet b bch I1
                by (cases t; cases t') auto
              have v: "fst (seq_and ?ty (expr_eq_apply hash sh v v')) =
                         ((case (t, t') of (None, None) \<Rightarrow> True
                           | (Some t1, Some t2) \<Rightarrow> alpha_c t1 t2 | _ \<Rightarrow> False) \<and> alpha_c v v') \<and>
                       (fst (seq_and ?ty (expr_eq_apply hash sh v v')) \<longrightarrow>
                          I (snd (seq_and ?ty (expr_eq_apply hash sh v v'))))"
                by (rule seq_and_rule[where Q = I, OF ty]) (use child NLet b bch in auto)
              have "fst (seq_and (seq_and ?ty (expr_eq_apply hash sh v v'))
                           (expr_eq_apply hash sh bd bd')) =
                         (((case (t, t') of (None, None) \<Rightarrow> True
                           | (Some t1, Some t2) \<Rightarrow> alpha_c t1 t2 | _ \<Rightarrow> False) \<and> alpha_c v v')
                          \<and> alpha_c bd bd') \<and>
                       (fst (seq_and (seq_and ?ty (expr_eq_apply hash sh v v'))
                           (expr_eq_apply hash sh bd bd')) \<longrightarrow>
                          I (snd (seq_and (seq_and ?ty (expr_eq_apply hash sh v v'))
                           (expr_eq_apply hash sh bd bd'))))"
                by (rule seq_and_rule[where Q = I, OF v]) (use child NLet b bch in auto)
              then show ?thesis using NLet ab al by (simp add: res)
            next
              case (NMetaVar n l)
              then obtain n' l' where b: "node b = NMetaVar n' l'"
                using keq kindD(10)[of b] by (auto simp: kind_def)
              have ab: "metavar_name b = n'" "metavar_lctx b = l'"
                using b by (cases b; simp)+
              have al: "alpha_c a b \<longleftrightarrow> n = n' \<and> list_all2 entry_rel l l'"
                using NMetaVar b by (rule alpha_c_MetaVar)
              let ?f = "\<lambda>e1 e2 s.
                             case (e1, e2) of
                               (Inst s1 v1, Inst s2 v2) \<Rightarrow>
                                 if s1 \<noteq> s2 then (False, s) else expr_eq_apply hash sh v1 v2 s
                             | (Lift s1 n1, Lift s2 n2) \<Rightarrow> (s1 = s2 \<and> n1 = n2, s)
                             | _ \<Rightarrow> (False, s)"
              have "fst (all2_st ?f l l' vis1) = list_all2 entry_rel l l' \<and>
                    (fst (all2_st ?f l l' vis1) \<longrightarrow> I (snd (all2_st ?f l l' vis1)))"
              proof (rule all2_st_rule[where I = I, OF _ I1])
                fix x y s assume xy: "x \<in> set l" "y \<in> set l'" and s: "I s"
                show "fst (?f x y s) = entry_rel x y \<and> (fst (?f x y s) \<longrightarrow> I (snd (?f x y s)))"
                proof (cases x)
                  case (Lift s1 n1)
                  then show ?thesis using s by (cases y) auto
                next
                  case (Inst s1 v1)
                  show ?thesis
                  proof (cases y)
                    case (Lift s2 n2)
                    then show ?thesis using Inst by simp
                  next
                    case y: (Inst s2 v2)
                    have "v1 \<in> set_node (node a)" using xy(1) Inst NMetaVar by force
                    moreover have "v2 \<in> U" using xy(2) y b bch by force
                    ultimately show ?thesis using child[of v1 v2 s] s Inst y by simp
                  qed
                qed
              qed
              then show ?thesis using NMetaVar ab al by (simp add: res)
            next
              case (NHEq l r)
              then obtain l' r' where b: "node b = NHEq l' r'"
                using keq kindD(11)[of b] by (auto simp: kind_def)
              have ab: "heq_lhs b = l'" "heq_rhs b = r'"
                using b by (cases b; simp)+
              have al: "alpha_c a b \<longleftrightarrow> alpha_c l l' \<and> alpha_c r r'"
                using NHEq b by (simp add: alpha_c_node[of a b] alpha_c_fold)
              have "fst (expr_eq_apply hash sh l l' {}) = alpha_c l l'"
                   "fst (expr_eq_apply hash sh r r' {}) = alpha_c r r'"
                using fresh NHEq b bch by auto
              then show ?thesis using NHEq ab al I1 by (simp add: res)
            next
              case (NPair f s t)
              then obtain f' s' t' where b: "node b = NPair f' s' t'"
                using keq kindD(12)[of b] by (auto simp: kind_def)
              have ab: "pair_first b = f'" "pair_second b = s'" "pair_type b = t'"
                using b by (cases b; simp)+
              have al: "alpha_c a b \<longleftrightarrow> alpha_c f f' \<and> alpha_c s s' \<and> alpha_c t t'"
                using NPair b by (simp add: alpha_c_node[of a b] alpha_c_fold)
              have "fst (expr_eq_apply hash sh f f' {}) = alpha_c f f'"
                   "fst (expr_eq_apply hash sh s s' {}) = alpha_c s s'"
                   "fst (expr_eq_apply hash sh t t' {}) = alpha_c t t'"
                using fresh NPair b bch by auto
              then show ?thesis using NPair ab al I1 by (simp add: res)
            next
              case (NProj i x)
              then obtain i' x' where b: "node b = NProj i' x'"
                using keq kindD(13)[of b] by (auto simp: kind_def)
              have ab: "proj_first b = i'" "proj_arg b = x'"
                using b by (cases b; simp)+
              have al: "alpha_c a b \<longleftrightarrow> i = i' \<and> alpha_c x x'"
                using NProj b by (simp add: alpha_c_node[of a b] alpha_c_fold)
              have "fst (expr_eq_apply hash sh x x' {}) = alpha_c x x'"
                using fresh NProj b bch by auto
              then show ?thesis using NProj ab al I1 by (simp add: res)
            qed
            then show ?thesis by (rule fin)
          qed
        qed
      qed
    qed
  qed
qed

text \<open>The cells of the DAG below a cell, and the two invariants the constructors
  of cells maintain: an address holds one cell, and the cached hash does not depend
  on name hints (alpha-equivalent cells cache the same hash).\<close>

primrec subcells :: "expr_cell \<Rightarrow> expr_cell set" where
  "subcells (Cell r n) = insert (Cell r n) (\<Union> (set_node (map_node subcells n)))"

definition ptr_consistent :: "expr_cell set \<Rightarrow> bool" where
  "ptr_consistent U \<longleftrightarrow> (\<forall>x\<in>U. \<forall>y\<in>U. raw x = raw y \<longrightarrow> x = y)"

definition hash_consistent :: "(nat \<Rightarrow> nat) \<Rightarrow> expr_cell set \<Rightarrow> bool" where
  "hash_consistent hash U \<longleftrightarrow>
     (\<forall>x\<in>U. \<forall>y\<in>U. alpha_eq (expr_of x) (expr_of y) \<longrightarrow> hash (raw x) = hash (raw y))"

lemma subcells_self: "a \<in> subcells a"
  by (cases a) simp

lemma subcells_closed: "x \<in> subcells a \<Longrightarrow> set_node (node x) \<subseteq> subcells a"
proof (induction a)
  case (Cell r n)
  show ?case
  proof (cases "x = Cell r n")
    case True
    then show ?thesis using subcells_self by (auto simp: node.set_map)
  next
    case False
    then obtain c where c: "c \<in> set_node n" "x \<in> subcells c"
      using Cell.prems by (auto simp: node.set_map)
    then have "set_node (node x) \<subseteq> subcells c" using Cell.IH by blast
    then show ?thesis using c(1) by (auto simp: node.set_map)
  qed
qed

text \<open>
  Claim C4. On cells \<open>a\<close> and \<open>b\<close> of a well-formed DAG (an address holds one
  cell, alpha-equivalent cells cache the same hash) \<open>expr_eq_fn\<close>, started on
  an empty visited set, returns true exactly when the expressions of \<open>a\<close> and \<open>b\<close>
  are alpha-equivalent: equal up to the name hints of binders, exact on constant
  names, variable indices, arguments, levels, values, metavariable names and local
  entries. On pointer-identical cells it returns true at once, the visited set
  untouched; on cells with different cached hashes it returns false. The comparison
  is a total function: it returns on every pair of cells.
\<close>

theorem expr_eq_fn_decides_alpha:
  assumes "ptr_consistent (subcells a \<union> subcells b)"
      and "hash_consistent hash (subcells a \<union> subcells b)"
  shows "expr_eq_fn hash is_shared a b = alpha_eq (expr_of a) (expr_of b) \<and>
         (raw a = raw b \<longrightarrow> expr_eq_apply hash is_shared a b {} = (True, {})) \<and>
         (raw a \<noteq> raw b \<and> hash (raw a) \<noteq> hash (raw b) \<longrightarrow> \<not> expr_eq_fn hash is_shared a b)"
proof -
  let ?U = "subcells a \<union> subcells b"
  have clo: "\<And>x. x \<in> ?U \<Longrightarrow> set_node (node x) \<subseteq> ?U"
    using subcells_closed by blast
  have W1: "\<And>x y. x \<in> ?U \<Longrightarrow> y \<in> ?U \<Longrightarrow> raw x = raw y \<Longrightarrow> x = y"
    using assms(1) unfolding ptr_consistent_def by blast
  have W2: "\<And>x y. x \<in> ?U \<Longrightarrow> y \<in> ?U \<Longrightarrow> alpha_c x y \<Longrightarrow> hash (raw x) = hash (raw y)"
    using assms(2) unfolding hash_consistent_def alpha_c_def by blast
  have "a \<in> ?U" "b \<in> ?U" using subcells_self by auto
  have main: "fst (expr_eq_apply hash is_shared a b {}) = alpha_c a b"
    using expr_eq_apply_correct[of ?U hash a b "{}" is_shared, OF clo W1 W2 \<open>a \<in> ?U\<close> \<open>b \<in> ?U\<close> good_empty]
    by blast
  have eqp: "raw a = raw b \<longrightarrow> expr_eq_apply hash is_shared a b {} = (True, {})"
    using expr_eq_apply_eqp[of a b hash is_shared "{}"] by blast
  have hne: "raw a \<noteq> raw b \<and> hash (raw a) \<noteq> hash (raw b) \<longrightarrow> \<not> expr_eq_fn hash is_shared a b"
    using expr_eq_apply_hash[of a b hash is_shared "{}"] unfolding expr_eq_fn_def by auto
  show ?thesis
    using main eqp hne unfolding expr_eq_fn_def alpha_c_def by blast
qed

text \<open>Two lambdas that differ in the name hint and share the cell of their domain.\<close>

definition ex_a :: expr_cell where
  "ex_a = Cell 1 (NLambda ''x'' (Cell 2 (NType Zero)) (Cell 3 (NVar 0)))"
definition ex_b :: expr_cell where
  "ex_b = Cell 4 (NLambda ''y'' (Cell 2 (NType Zero)) (Cell 5 (NVar 0)))"
definition ex_hash :: "nat \<Rightarrow> nat" where
  "ex_hash r = (if r = 1 \<or> r = 4 then 11 else if r = 3 \<or> r = 5 then 13 else 17)"

lemma ex_U: "subcells ex_a \<union> subcells ex_b =
   {ex_a, Cell 2 (NType Zero), Cell 3 (NVar 0), ex_b, Cell 5 (NVar 0)}"
  by (auto simp: ex_a_def ex_b_def)

lemma ex_ptr_consistent: "ptr_consistent (subcells ex_a \<union> subcells ex_b)"
  unfolding ex_U by (simp add: ptr_consistent_def ex_a_def ex_b_def)

lemma ex_hash_consistent: "hash_consistent ex_hash (subcells ex_a \<union> subcells ex_b)"
  unfolding ex_U by (simp add: hash_consistent_def ex_a_def ex_b_def ex_hash_def alpha_eq_def)

theorem expr_eq_fn_decides_alpha_witness:
  "ptr_consistent (subcells ex_a \<union> subcells ex_b) \<and>
   hash_consistent ex_hash (subcells ex_a \<union> subcells ex_b) \<and>
   expr_eq_fn ex_hash (\<lambda>r. True) ex_a ex_b \<and>
   alpha_eq (expr_of ex_a) (expr_of ex_b)"
proof -
  have "alpha_eq (expr_of ex_a) (expr_of ex_b)"
    by (simp add: alpha_eq_def ex_a_def ex_b_def)
  then show ?thesis
    using expr_eq_fn_decides_alpha[OF ex_ptr_consistent ex_hash_consistent, of "\<lambda>r. True"]
      ex_ptr_consistent ex_hash_consistent
    by simp
qed

section \<open>Maximal sharing\<close>

text \<open>
  The part of the heap that \<open>max_sharing.cpp\<close> changes: the set of addresses of
  the cells whose \<open>max_shared\<close> flag is set, and the next free address, where a
  constructor places a new cell. The cache \<open>m_cache\<close> of a traversal is a list of
  cells without structurally equal duplicates.
\<close>

record heap =
  max_shared :: "nat set"
  next_cell :: nat

type_synonym expr_cache = "expr_cell list"

text \<open>Modelled from the spec: the functions \<open>update_const\<close>, \<open>update_heq\<close>,
  \<open>update_pair\<close>, \<open>update_proj\<close>, \<open>update_app\<close>, \<open>update_abst\<close>,
  \<open>update_let\<close> and \<open>update_metavar\<close> of \<open>expr.h\<close>, which are not among the
  sources. Each applies the given function to the children of a cell, with the state
  threaded through (\<open>apply_children\<close>), and returns the cell itself when every new child is pointer-identical to the old one; otherwise
  the smart constructor builds a cell of the same kind, with the same name hint and
  payload, at the next free address (\<open>update\<close>). Cells without children
  (\<open>Var\<close>, \<open>Type\<close>, \<open>Value\<close>) are returned as they are. The arguments of an
  application and the entries of a local context are visited from left to right.
  For \<open>HEq\<close>, \<open>Pair\<close>, the binders and \<open>Let\<close> the new children are the arguments
  of one call in \<open>max_sharing.cpp\<close>, whose order of evaluation the language leaves
  open; they are visited from right to left, the order in which the usual compilers
  evaluate the arguments of a call. The results below hold for either order.\<close>

fun map_st :: "('a \<Rightarrow> 's \<Rightarrow> 'b \<times> 's) \<Rightarrow> 'a list \<Rightarrow> 's \<Rightarrow> 'b list \<times> 's" where
  "map_st f [] s = ([], s)"
| "map_st f (x # xs) s =
     (case f x s of (y, s1) \<Rightarrow> (case map_st f xs s1 of (ys, s2) \<Rightarrow> (y # ys, s2)))"

fun apply_children ::
  "(expr_cell \<Rightarrow> 's \<Rightarrow> expr_cell \<times> 's) \<Rightarrow> expr_cell node \<Rightarrow> 's \<Rightarrow> expr_cell node \<times> 's" where
  "apply_children f (NConstant n t) s =
     (case t of
        None \<Rightarrow> (NConstant n None, s)
      | Some t1 \<Rightarrow> (case f t1 s of (t', s1) \<Rightarrow> (NConstant n (Some t'), s1)))"
| "apply_children f (NVar i) s = (NVar i, s)"
| "apply_children f (NType l) s = (NType l, s)"
| "apply_children f (NValue v) s = (NValue v, s)"
| "apply_children f (NHEq l r) s =
     (case f r s of (r', s1) \<Rightarrow> case f l s1 of (l', s2) \<Rightarrow> (NHEq l' r', s2))"
| "apply_children f (NPair a b t) s =
     (case f t s of (t', s1) \<Rightarrow> case f b s1 of (b', s2) \<Rightarrow>
      case f a s2 of (a', s3) \<Rightarrow> (NPair a' b' t', s3))"
| "apply_children f (NProj i x) s = (case f x s of (x', s1) \<Rightarrow> (NProj i x', s1))"
| "apply_children f (NApp as) s = (case map_st f as s of (as', s1) \<Rightarrow> (NApp as', s1))"
| "apply_children f (NSigma n t b) s =
     (case f b s of (b', s1) \<Rightarrow> case f t s1 of (t', s2) \<Rightarrow> (NSigma n t' b', s2))"
| "apply_children f (NLambda n t b) s =
     (case f b s of (b', s1) \<Rightarrow> case f t s1 of (t', s2) \<Rightarrow> (NLambda n t' b', s2))"
| "apply_children f (NPi n t b) s =
     (case f b s of (b', s1) \<Rightarrow> case f t s1 of (t', s2) \<Rightarrow> (NPi n t' b', s2))"
| "apply_children f (NLet n t v b) s =
     (case f b s of (b', s1) \<Rightarrow> case f v s1 of (v', s2) \<Rightarrow>
      case (case t of None \<Rightarrow> (None, s2)
            | Some t1 \<Rightarrow> (case f t1 s2 of (t', s3) \<Rightarrow> (Some t', s3))) of
        (t', s3) \<Rightarrow> (NLet n t' v' b', s3))"
| "apply_children f (NMetaVar n l) s =
     (case map_st (\<lambda>e s. case e of
                            Inst k v \<Rightarrow> (case f v s of (v', s') \<Rightarrow> (Inst k v', s'))
                          | Lift k m \<Rightarrow> (Lift k m, s)) l s of
        (l', s1) \<Rightarrow> (NMetaVar n l', s1))"

lemma map_st_cong [fundef_cong]:
  "xs = xs' \<Longrightarrow> s = s' \<Longrightarrow> (\<And>x t. x \<in> set xs' \<Longrightarrow> f x t = g x t) \<Longrightarrow>
   map_st f xs s = map_st g xs' s'"
proof (induction xs' arbitrary: xs s s')
  case Nil
  then show ?case by simp
next
  case (Cons x xs')
  then show ?case by (auto split: prod.splits)
qed

lemma apply_children_cong [fundef_cong]:
  assumes "n = n'" "s = s'" "\<And>c t. c \<in> set_node n' \<Longrightarrow> f c t = g c t"
  shows "apply_children f n s = apply_children g n' s'"
proof (cases n')
  case (NApp as)
  have "map_st f as s' = map_st g as s'"
    by (rule map_st_cong) (use assms(3) NApp in auto)
  then show ?thesis using assms(1,2) NApp by simp
next
  case (NMetaVar nm l)
  have "map_st (\<lambda>e s. case e of
                            Inst k v \<Rightarrow> (case f v s of (v', s') \<Rightarrow> (Inst k v', s'))
                          | Lift k m \<Rightarrow> (Lift k m, s)) l s' =
        map_st (\<lambda>e s. case e of
                            Inst k v \<Rightarrow> (case g v s of (v', s') \<Rightarrow> (Inst k v', s'))
                          | Lift k m \<Rightarrow> (Lift k m, s)) l s'"
  proof (rule map_st_cong)
    fix x t assume "x \<in> set l"
    show "(case x of Inst k v \<Rightarrow> (case f v t of (v', s') \<Rightarrow> (Inst k v', s'))
                 | Lift k m \<Rightarrow> (Lift k m, t)) =
               (case x of Inst k v \<Rightarrow> (case g v t of (v', s') \<Rightarrow> (Inst k v', s'))
                 | Lift k m \<Rightarrow> (Lift k m, t))"
    proof (cases x)
      case (Inst k v)
      then have "v \<in> set_node n'" using \<open>x \<in> set l\<close> NMetaVar by force
      then show ?thesis using assms(3)[of v t] Inst by simp
    qed simp
  qed simp_all
  then show ?thesis using assms(1,2) NMetaVar by simp
qed (use assms in \<open>auto split: option.splits prod.splits\<close>)

definition update :: "expr_cell \<Rightarrow> expr_cell node \<Rightarrow> heap \<Rightarrow> expr_cell \<times> heap" where
  "update e n h =
     (if rel_node (\<lambda>old new. raw old = raw new) (node e) n then (e, h)
      else (Cell (next_cell h) n, h\<lparr>next_cell := Suc (next_cell h)\<rparr>))"

text \<open>Modelled from the spec: \<open>m_cache\<close> is an \<open>unordered_set\<close> of expressions
  under \<open>expr_hash\<close> and \<open>operator==\<close> of \<open>expr.h\<close>, which are not among the
  sources: \<open>find\<close> returns the cached cell structurally equal (alpha-equivalent)
  to its argument, \<open>insert\<close> adds a cell unless a structurally equal one is cached.
  \<open>cache(a)\<close> sets the flag of the cell and inserts it.\<close>

definition cache_find :: "expr_cache \<Rightarrow> expr_cell \<Rightarrow> expr_cell option" where
  "cache_find c a = find (\<lambda>r. alpha_c r a) c"

definition cache_insert :: "expr_cell \<Rightarrow> expr_cache \<Rightarrow> expr_cache" where
  "cache_insert a c = (case cache_find c a of None \<Rightarrow> a # c | Some r \<Rightarrow> c)"

definition cache :: "expr_cell \<Rightarrow> expr_cache \<times> heap \<Rightarrow> expr_cache \<times> heap" where
  "cache a st =
     (case st of (c, h) \<Rightarrow>
        (cache_insert a c, h\<lparr>max_shared := insert (raw a) (max_shared h)\<rparr>))"

text \<open>\<open>max_sharing_fn::imp::apply\<close>; the state is the cache of the traversal and
  the heap. The assertion on a cache hit holds by \<open>cache_ok\<close> below.
  \<open>check_system\<close> is not modelled: no interruption is requested.\<close>

function max_sharing_apply ::
  "expr_cell \<Rightarrow> expr_cache \<times> heap \<Rightarrow> expr_cell \<times> expr_cache \<times> heap" where
  "max_sharing_apply a st =
     (case cache_find (fst st) a of
        Some r \<Rightarrow> (r, st)
      | None \<Rightarrow>
          if raw a \<in> max_shared (snd st) then (a, cache_insert a (fst st), snd st)
          else
            (case apply_children max_sharing_apply (node a) st of
               (n', c1, h1) \<Rightarrow>
                 (case update a n' h1 of (res, h2) \<Rightarrow> (res, cache res (c1, h2)))))"
  by pat_completeness auto
termination
  apply (relation "measure (\<lambda>(a, st). size a)")
  by (auto intro!: size_child)

text \<open>\<open>max_sharing(a)\<close>: a cell with the flag set is returned as it is; otherwise a
  traversal with a fresh, empty cache runs.\<close>

definition max_sharing :: "expr_cell \<Rightarrow> heap \<Rightarrow> expr_cell \<times> heap" where
  "max_sharing a h =
     (if raw a \<in> max_shared h then (a, h)
      else (case max_sharing_apply a ([], h) of (r, c, h') \<Rightarrow> (r, h')))"


declare max_sharing_apply.simps [simp del]

subsection \<open>Properties of the traversal\<close>

text \<open>Every cached cell has its flag set; and a later state keeps the flags of an
  earlier one.\<close>

definition cache_ok :: "expr_cache \<times> heap \<Rightarrow> bool" where
  "cache_ok st \<longleftrightarrow> (\<forall>x\<in>set (fst st). raw x \<in> max_shared (snd st))"

definition step_ok :: "expr_cache \<times> heap \<Rightarrow> expr_cache \<times> heap \<Rightarrow> bool" where
  "step_ok st s \<longleftrightarrow> cache_ok s \<and> max_shared (snd st) \<subseteq> max_shared (snd s)"

lemma map_st_rule:
  assumes "\<And>x s. x \<in> set xs \<Longrightarrow> J s \<Longrightarrow> (case f x s of (y, s') \<Rightarrow> R y x \<and> J s')"
    and "J s"
  shows "case map_st f xs s of (ys, s') \<Rightarrow> list_all2 R ys xs \<and> J s'"
  using assms
proof (induction xs arbitrary: s)
  case Nil
  then show ?case by simp
next
  case (Cons x xs)
  obtain y s1 where f: "f x s = (y, s1)" by (cases "f x s")
  have 1: "R y x \<and> J s1" using Cons.prems(1)[of x s] Cons.prems(2) f by simp
  obtain ys s2 where m: "map_st f xs s1 = (ys, s2)" by (cases "map_st f xs s1")
  have "list_all2 R ys xs \<and> J s2"
    using Cons.IH[of s1] Cons.prems(1) 1 m by simp
  then show ?case using f m 1 by simp
qed


lemma apply_children_rule:
  assumes "\<And>c s. c \<in> set_node n \<Longrightarrow> J s \<Longrightarrow> (case f c s of (c', s') \<Rightarrow> R c' c \<and> J s')"
    and "J s"
  shows "case apply_children f n s of (n', s') \<Rightarrow> rel_node R n' n \<and> J s'"
proof (cases n)
  case (NApp as)
  have "case map_st f as s of (ys, s') \<Rightarrow> list_all2 R ys as \<and> J s'"
    by (rule map_st_rule[where J = J]) (use assms NApp in auto)
  then show ?thesis using NApp by (auto split: prod.splits)
next
  case (NMetaVar nm l)
  let ?g = "\<lambda>e s. case e of
                            Inst k v \<Rightarrow> (case f v s of (v', s') \<Rightarrow> (Inst k v', s'))
                          | Lift k m \<Rightarrow> (Lift k m, s)"
  have "case map_st ?g l s of (ys, s') \<Rightarrow> list_all2 (rel_local_entry R) ys l \<and> J s'"
  proof (rule map_st_rule[where J = J])
    fix x t assume x: "x \<in> set l" and t: "J t"
    show "case ?g x t of (y, s') \<Rightarrow> rel_local_entry R y x \<and> J s'"
    proof (cases x)
      case (Inst k v)
      then have "v \<in> set_node n" using x NMetaVar by force
      then show ?thesis using assms(1)[of v t] t Inst by (auto split: prod.splits)
    qed (use t in simp)
  qed (rule assms(2))
  then show ?thesis using NMetaVar by (auto split: prod.splits)
next
  case (NConstant nm t)
  show ?thesis
  proof (cases t)
    case None
    then show ?thesis using NConstant assms(2) by simp
  next
    case (Some t1)
    obtain t' s1 where 1: "f t1 s = (t', s1)" by (cases "f t1 s")
    then have j1: "R t' t1 \<and> J s1" using assms(1)[of t1 s] assms(2) NConstant Some by simp
    show ?thesis using NConstant Some 1 j1 by simp
  qed
next
  case (NLet nm t v b)
  obtain b' s1 where 1: "f b s = (b', s1)" by (cases "f b s")
  then have j1: "R b' b \<and> J s1" using assms(1)[of b s] assms(2) NLet by simp
  obtain v' s2 where 2: "f v s1 = (v', s2)" by (cases "f v s1")
  then have j2: "R v' v \<and> J s2" using assms(1)[of v s1] j1 NLet by simp
  show ?thesis
  proof (cases t)
    case None
    show ?thesis using NLet None 1 2 j1 j2 by simp
  next
    case (Some t1)
    obtain t' s3 where 3: "f t1 s2 = (t', s3)" by (cases "f t1 s2")
    then have j3: "R t' t1 \<and> J s3" using assms(1)[of t1 s2] j2 NLet Some by simp
    show ?thesis using NLet Some 1 2 3 j1 j2 j3 by simp
  qed
next
  case (NHEq l r)
  obtain r' s1 where 1: "f r s = (r', s1)" by (cases "f r s")
  then have j1: "R r' r \<and> J s1" using assms(1)[of r s] assms(2) NHEq by simp
  obtain l' s2 where 2: "f l s1 = (l', s2)" by (cases "f l s1")
  then have j2: "R l' l \<and> J s2" using assms(1)[of l s1] j1 NHEq by simp
  show ?thesis using NHEq 1 2 j1 j2 by simp
next
  case (NPair a b t)
  obtain t' s1 where 1: "f t s = (t', s1)" by (cases "f t s")
  then have j1: "R t' t \<and> J s1" using assms(1)[of t s] assms(2) NPair by simp
  obtain b' s2 where 2: "f b s1 = (b', s2)" by (cases "f b s1")
  then have j2: "R b' b \<and> J s2" using assms(1)[of b s1] j1 NPair by simp
  obtain a' s3 where 3: "f a s2 = (a', s3)" by (cases "f a s2")
  then have j3: "R a' a \<and> J s3" using assms(1)[of a s2] j2 NPair by simp
  show ?thesis using NPair 1 2 3 j1 j2 j3 by simp
next
  case (NProj i x)
  obtain x' s1 where 1: "f x s = (x', s1)" by (cases "f x s")
  then have j1: "R x' x \<and> J s1" using assms(1)[of x s] assms(2) NProj by simp
  show ?thesis using NProj 1 j1 by simp
next
  case (NLambda nm t b)
  obtain b' s1 where 1: "f b s = (b', s1)" by (cases "f b s")
  then have j1: "R b' b \<and> J s1" using assms(1)[of b s] assms(2) NLambda by simp
  obtain t' s2 where 2: "f t s1 = (t', s2)" by (cases "f t s1")
  then have j2: "R t' t \<and> J s2" using assms(1)[of t s1] j1 NLambda by simp
  show ?thesis using NLambda 1 2 j1 j2 by simp
next
  case (NPi nm t b)
  obtain b' s1 where 1: "f b s = (b', s1)" by (cases "f b s")
  then have j1: "R b' b \<and> J s1" using assms(1)[of b s] assms(2) NPi by simp
  obtain t' s2 where 2: "f t s1 = (t', s2)" by (cases "f t s1")
  then have j2: "R t' t \<and> J s2" using assms(1)[of t s1] j1 NPi by simp
  show ?thesis using NPi 1 2 j1 j2 by simp
next
  case (NSigma nm t b)
  obtain b' s1 where 1: "f b s = (b', s1)" by (cases "f b s")
  then have j1: "R b' b \<and> J s1" using assms(1)[of b s] assms(2) NSigma by simp
  obtain t' s2 where 2: "f t s1 = (t', s2)" by (cases "f t s1")
  then have j2: "R t' t \<and> J s2" using assms(1)[of t s1] j1 NSigma by simp
  show ?thesis using NSigma 1 2 j1 j2 by simp
qed (use assms(2) in auto)

lemma rel_local_entry_alpha: "rel_local_entry alpha_c e' e \<Longrightarrow> entry_rel e' e"
  by (cases e'; cases e) auto

lemma alpha_c_rel_node: "rel_node alpha_c n' n \<Longrightarrow> alpha_c (Cell p n') (Cell r n)"
proof (cases n)
  case (NApp as)
  assume "rel_node alpha_c n' n"
  then obtain as' where "n' = NApp as'" "list_all2 alpha_c as' as"
    using NApp by (cases n') auto
  then show ?thesis using NApp alpha_c_App[of "Cell p n'" as' "Cell r n" as] by simp
next
  case (NMetaVar nm l)
  assume "rel_node alpha_c n' n"
  then obtain l' where l': "n' = NMetaVar nm l'" "list_all2 (rel_local_entry alpha_c) l' l"
    using NMetaVar by (cases n') auto
  then have "list_all2 entry_rel l' l"
    by (auto elim!: list_all2_mono intro: rel_local_entry_alpha)
  then show ?thesis
    using l' NMetaVar alpha_c_MetaVar[of "Cell p n'" nm l' "Cell r n" nm l] by simp
next
  case (NLet nm t v b)
  assume "rel_node alpha_c n' n"
  then obtain nm' t' v' b' where l': "n' = NLet nm' t' v' b'"
     "rel_option alpha_c t' t" "alpha_c v' v" "alpha_c b' b"
    using NLet by (cases n') auto
  then show ?thesis
    using NLet alpha_c_Let[of "Cell p n'" nm' t' v' b' "Cell r n" nm t v b]
    by (cases t; cases t') auto
next
  case (NVar i)
  assume "rel_node alpha_c n' n"
  then show ?thesis
    using NVar by (cases n') (simp_all add: alpha_c_def alpha_eq_def)
next
  case (NConstant nm t)
  assume "rel_node alpha_c n' n"
  then show ?thesis
    using NConstant by (cases n') (simp_all add: alpha_c_def alpha_eq_def)
next
  case (NValue v)
  assume "rel_node alpha_c n' n"
  then show ?thesis
    using NValue by (cases n') (simp_all add: alpha_c_def alpha_eq_def)
next
  case (NLambda nm t b)
  assume "rel_node alpha_c n' n"
  then show ?thesis
    using NLambda by (cases n') (simp_all add: alpha_c_def alpha_eq_def)
next
  case (NPi nm t b)
  assume "rel_node alpha_c n' n"
  then show ?thesis
    using NPi by (cases n') (simp_all add: alpha_c_def alpha_eq_def)
next
  case (NSigma nm t b)
  assume "rel_node alpha_c n' n"
  then show ?thesis
    using NSigma by (cases n') (simp_all add: alpha_c_def alpha_eq_def)
next
  case (NType l)
  assume "rel_node alpha_c n' n"
  then show ?thesis
    using NType by (cases n') (simp_all add: alpha_c_def alpha_eq_def)
next
  case (NHEq l r)
  assume "rel_node alpha_c n' n"
  then show ?thesis
    using NHEq by (cases n') (simp_all add: alpha_c_def alpha_eq_def)
next
  case (NPair a b t)
  assume "rel_node alpha_c n' n"
  then show ?thesis
    using NPair by (cases n') (simp_all add: alpha_c_def alpha_eq_def)
next
  case (NProj i x)
  assume "rel_node alpha_c n' n"
  then show ?thesis
    using NProj by (cases n') (simp_all add: alpha_c_def alpha_eq_def)
qed


lemma cache_find_SomeD: "cache_find c a = Some r \<Longrightarrow> r \<in> set c \<and> alpha_c r a"
  unfolding cache_find_def by (auto simp: find_Some_iff)

lemma set_cache_insert: "set (cache_insert a c) \<subseteq> insert a (set c)"
  by (auto simp: cache_insert_def split: option.splits)

lemma step_ok_trans: "step_ok st s \<Longrightarrow> step_ok s s' \<Longrightarrow> step_ok st s'"
  by (auto simp: step_ok_def)

lemma max_sharing_apply_ok:
  "cache_ok st \<Longrightarrow>
   (case max_sharing_apply a st of
      (r, s') \<Rightarrow> alpha_c r a \<and> raw r \<in> max_shared (snd s') \<and> step_ok st s')"
proof (induction "size a" arbitrary: a st rule: less_induct)
  case less
  note ok = less.prems
  show ?case
  proof (cases "cache_find (fst st) a")
    case (Some r)
    then have "r \<in> set (fst st)" "alpha_c r a" using cache_find_SomeD by blast+
    then show ?thesis
      using ok Some by (subst max_sharing_apply.simps) (simp add: cache_ok_def step_ok_def)
  next
    case None
    show ?thesis
    proof (cases "raw a \<in> max_shared (snd st)")
      case True
      then show ?thesis
        using ok None set_cache_insert[of a "fst st"]
        by (subst max_sharing_apply.simps)
           (auto simp: cache_ok_def step_ok_def alpha_c_refl)
    next
      case False
      have eq: "max_sharing_apply a st =
            (case apply_children max_sharing_apply (node a) st of
               (n', c1, h1) \<Rightarrow>
                 (case update a n' h1 of (res, h2) \<Rightarrow> (res, cache res (c1, h2))))"
        using None False by (subst max_sharing_apply.simps) simp
      have ch: "case apply_children max_sharing_apply (node a) st of
                  (n', s') \<Rightarrow> rel_node alpha_c n' (node a) \<and> step_ok st s'"
      proof (rule apply_children_rule[where J = "step_ok st"])
        fix c s assume c: "c \<in> set_node (node a)" and s: "step_ok st s"
        have sz: "size c < size a" using c by (rule size_child)
        have "cache_ok s" using s by (simp add: step_ok_def)
        from less.hyps[OF sz this]
        show "case max_sharing_apply c s of (c', s') \<Rightarrow> alpha_c c' c \<and> step_ok st s'"
          using s by (auto intro: step_ok_trans)
      next
        show "step_ok st st" using ok by (simp add: step_ok_def)
      qed
      obtain n' c1 h1 where ac: "apply_children max_sharing_apply (node a) st = (n', c1, h1)"
        by (cases "apply_children max_sharing_apply (node a) st") auto
      have rel: "rel_node alpha_c n' (node a)" and j: "step_ok st (c1, h1)"
        using ch ac by auto
      obtain res h2 where u: "update a n' h1 = (res, h2)" by (cases "update a n' h1")
      have "alpha_c (Cell p n') a" for p
        using alpha_c_rel_node[OF rel, of p "raw a"] by (cases a) simp
      then have res: "alpha_c res a" and h2: "max_shared h2 = max_shared h1"
        using u by (auto simp: update_def alpha_c_refl split: if_splits)
      show ?thesis
        using j res h2 set_cache_insert[of res c1]
        by (auto simp: eq ac u cache_def step_ok_def cache_ok_def)
    qed
  qed
qed

text \<open>
  Claim C3. For every cell \<open>a\<close> and heap \<open>h\<close>, the expression of the cell that
  \<open>max_sharing\<close> returns is alpha-equivalent to the expression of \<open>a\<close>; the flag
  \<open>max_shared\<close> of the returned cell is set in the heap after the call; and
  \<open>max_sharing\<close> on the returned cell in that heap returns the same cell and
  leaves the heap as it is.
\<close>

theorem max_sharing_alpha_idempotent:
  "alpha_eq (expr_of (fst (max_sharing a h))) (expr_of a) \<and>
   raw (fst (max_sharing a h)) \<in> max_shared (snd (max_sharing a h)) \<and>
   max_sharing (fst (max_sharing a h)) (snd (max_sharing a h)) = max_sharing a h"
proof -
  have 1: "alpha_c (fst (max_sharing a h)) a \<and>
           raw (fst (max_sharing a h)) \<in> max_shared (snd (max_sharing a h))"
  proof (cases "raw a \<in> max_shared h")
    case True
    then show ?thesis by (simp add: max_sharing_def alpha_c_refl)
  next
    case False
    have "cache_ok ([], h)" by (simp add: cache_ok_def)
    from max_sharing_apply_ok[OF this, of a] show ?thesis
      using False by (auto simp: max_sharing_def split: prod.splits)
  qed
  then have "max_sharing (fst (max_sharing a h)) (snd (max_sharing a h)) = max_sharing a h"
    by (simp add: max_sharing_def[of "fst (max_sharing a h)"])
  with 1 show ?thesis by (simp add: alpha_c_def)
qed

text \<open>An application of two alpha-equivalent lambdas held in different cells: both
  arguments become the first one, in a new application cell.\<close>

definition ex_app :: expr_cell where
  "ex_app = Cell 1 (NApp [Cell 2 (NLambda ''x'' (Cell 3 (NType Zero)) (Cell 4 (NVar 0))),
                          Cell 5 (NLambda ''y'' (Cell 6 (NType Zero)) (Cell 7 (NVar 0)))])"

lemma max_sharing_ex_app: "max_sharing ex_app \<lparr>max_shared = {}, next_cell = 8\<rparr> =
  (Cell 8 (NApp [Cell 2 (NLambda ''x'' (Cell 3 (NType Zero)) (Cell 4 (NVar 0))),
                 Cell 2 (NLambda ''x'' (Cell 3 (NType Zero)) (Cell 4 (NVar 0)))]),
   \<lparr>max_shared = {8, 2, 3, 4}, next_cell = 9\<rparr>)"
  by (simp add: ex_app_def max_sharing_def max_sharing_apply.simps cache_find_def cache_insert_def
      cache_def update_def alpha_c_def alpha_eq_def)


section \<open>Environments, normalizer and type checker\<close>

text \<open>A context lists its entries, name and type, in the order of declaration.\<close>

type_synonym "context" = "(name \<times> expr) list"

text \<open>The exceptions of \<open>kernel_exception.h\<close>, each with the fields of its class; the
  environment every exception carries is left out. \<open>max_steps_exceeded\<close> is the
  bound on reduction steps, \<open>builtin_failure\<close> a failure inside beta application or
  a builtin hook, and \<open>not_modelled\<close> marks the term forms whose typing rule the
  development does not cover.\<close>

datatype kernel_exception =
    unknown_universe_variable name
  | unknown_object name
  | already_declared_universe name
  | already_declared_object name
  | read_only_environment
  | app_type_mismatch "context" expr nat expr expr
  | function_expected "context" expr
  | type_expected "context" expr
  | def_type_mismatch name expr expr expr
  | max_steps_exceeded
  | builtin_failure error
  | not_modelled

text \<open>Modelled from the spec: the objects of an environment (\<open>object.h\<close> and
  \<open>environment.cpp\<close> are not among the sources). A universe variable is kept with
  its lower bound, a definition with its type, value and opacity flag.\<close>

datatype object =
    UVarConstraint name level
  | Postulate name expr
  | Definition name expr expr bool
  | Builtin name val
  | Neutral name

text \<open>Modelled from the spec: an environment (\<open>environment.cpp\<close> is not among the
  sources) holds its own objects in insertion order, its frozen ancestor and the
  number of its live children.\<close>

datatype environment =
  Env (objects: "object list") (parent: "environment option") (num_children: nat)

fun is_object_named :: "name \<Rightarrow> object \<Rightarrow> bool" where
  "is_object_named n (UVarConstraint m l) = False"
| "is_object_named n (Postulate m t) = (n = m)"
| "is_object_named n (Definition m t v opaque) = (n = m)"
| "is_object_named n (Builtin m v) = (n = m)"
| "is_object_named n (Neutral m) = (n = m)"

fun is_uvar_named :: "name \<Rightarrow> object \<Rightarrow> bool" where
  "is_uvar_named n (UVarConstraint m l) = (n = m)"
| "is_uvar_named n obj = False"

text \<open>Modelled from the spec: lookup walks the chain of ancestors, the environment's own
  objects first.\<close>

fun find_object :: "environment \<Rightarrow> name \<Rightarrow> object option" where
  "find_object (Env objs p k) n =
     (case find (is_object_named n) objs of
        Some obj \<Rightarrow> Some obj
      | None \<Rightarrow> (case p of None \<Rightarrow> None | Some e \<Rightarrow> find_object e n))"

fun find_uvar :: "environment \<Rightarrow> name \<Rightarrow> object option" where
  "find_uvar (Env objs p k) n =
     (case find (is_uvar_named n) objs of
        Some obj \<Rightarrow> Some obj
      | None \<Rightarrow> (case p of None \<Rightarrow> None | Some e \<Rightarrow> find_uvar e n))"

definition has_children :: "environment \<Rightarrow> bool" where
  "has_children env \<longleftrightarrow> 0 < num_children env"

definition has_parent :: "environment \<Rightarrow> bool" where
  "has_parent env \<longleftrightarrow> parent env \<noteq> None"

text \<open>Modelled from the spec: \<open>mk_child\<close> freezes the environment and returns its new
  state together with the descendant, whose \<open>parent\<close> is the frozen ancestor.
  \<open>drop_child\<close> is the effect on the ancestor of destroying one descendant.\<close>

fun mk_child :: "environment \<Rightarrow> environment \<times> environment" where
  "mk_child (Env objs p k) = (Env objs p (Suc k), Env [] (Some (Env objs p (Suc k))) 0)"

fun drop_child :: "environment \<Rightarrow> environment" where
  "drop_child (Env objs p k) = Env objs p (k - 1)"

fun add_object :: "environment \<Rightarrow> object \<Rightarrow> environment" where
  "add_object (Env objs p k) obj = Env (objs @ [obj]) p k"

text \<open>Sequencing of computations that may raise.\<close>

definition bind :: "'e + 'a \<Rightarrow> ('a \<Rightarrow> 'e + 'b) \<Rightarrow> 'e + 'b" where
  "bind r f = (case r of Inl e \<Rightarrow> Inl e | Inr x \<Rightarrow> f x)"

fun map_result :: "('a \<Rightarrow> 'e + 'b) \<Rightarrow> 'a list \<Rightarrow> 'e + 'b list" where
  "map_result f [] = Inr []"
| "map_result f (x # xs) = bind (f x) (\<lambda>y. bind (map_result f xs) (\<lambda>ys. Inr (y # ys)))"

subsection \<open>Universe levels\<close>

text \<open>Modelled from the spec: \<open>is_ge(l1, l2)\<close> of the universe constraints decides
  \<open>l1 \<ge> l2 + k\<close> from the declared lower bounds (\<open>level.cpp\<close> and
  \<open>environment.cpp\<close> are not among the sources). The first argument bounds the
  depth of the search, and \<open>is_ge\<close> starts it with a bound computed from the two
  levels and the declared constraints.\<close>

fun is_ge_k :: "nat \<Rightarrow> environment \<Rightarrow> level \<Rightarrow> level \<Rightarrow> int \<Rightarrow> bool" where
  "is_ge_k 0 env l1 l2 k = False"
| "is_ge_k (Suc n) env l1 (Succ b) k = is_ge_k n env l1 b (k + 1)"
| "is_ge_k (Suc n) env l1 (Max a b) k = (is_ge_k n env l1 a k \<and> is_ge_k n env l1 b k)"
| "is_ge_k (Suc n) env (Succ a) l2 k = is_ge_k n env a l2 (k - 1)"
| "is_ge_k (Suc n) env (Max a b) l2 k = (is_ge_k n env a l2 k \<or> is_ge_k n env b l2 k)"
| "is_ge_k (Suc n) env Zero l2 k = (l2 = Zero \<and> k \<le> 0)"
| "is_ge_k (Suc n) env (UVar u) l2 k =
     ((l2 = UVar u \<and> k \<le> 0) \<or> (l2 = Zero \<and> k \<le> 0) \<or>
      (case find_uvar env u of
         Some (UVarConstraint m bound) \<Rightarrow> is_ge_k n env bound l2 k
       | _ \<Rightarrow> False))"

fun level_size :: "level \<Rightarrow> nat" where
  "level_size Zero = 1"
| "level_size (Succ l) = Suc (level_size l)"
| "level_size (Max a b) = Suc (level_size a + level_size b)"
| "level_size (UVar u) = 1"

fun uvar_bound_size :: "object \<Rightarrow> nat" where
  "uvar_bound_size (UVarConstraint m l) = level_size l"
| "uvar_bound_size obj = 0"

fun all_objects :: "environment \<Rightarrow> object list" where
  "all_objects (Env objs p k) = objs @ (case p of None \<Rightarrow> [] | Some e \<Rightarrow> all_objects e)"

definition is_ge :: "environment \<Rightarrow> level \<Rightarrow> level \<Rightarrow> bool" where
  "is_ge env l1 l2 =
     is_ge_k (level_size l1 + level_size l2 + sum_list (map uvar_bound_size (all_objects env))
              + length (all_objects env) + 1) env l1 l2 0"


subsection \<open>Builtin values\<close>

text \<open>The builtin values of \<open>arith.cpp\<close> and \<open>builtin.cpp\<close>: \<open>Int\<close>, \<open>Bool\<close> and
  their literals. \<open>get_type\<close> is the virtual method of each value class;
  \<open>arrow\<close> is modelled from the spec as a non-dependent \<open>Pi\<close>.\<close>

definition mk_int_type :: expr where
  "mk_int_type = mk_value int_type_value"

definition mk_bool_type :: expr where
  "mk_bool_type = mk_value bool_type_value"

definition mk_bool_value :: "bool \<Rightarrow> expr" where
  "mk_bool_value v = mk_value (bool_value_value v)"

definition arrow :: "expr \<Rightarrow> expr \<Rightarrow> expr" where
  "arrow t e = Pi ''a'' t e"

fun get_type :: "val \<Rightarrow> expr" where
  "get_type int_type_value = Type Zero"
| "get_type (int_value_value v) = mk_int_type"
| "get_type (int_bin_op F) = arrow mk_int_type (arrow mk_int_type mk_int_type)"
| "get_type int_le_value = arrow mk_int_type (arrow mk_int_type mk_bool_type)"
| "get_type bool_type_value = Type Zero"
| "get_type (bool_value_value v) = mk_bool_type"

text \<open>\<open>int_le_value::normalize\<close> and the dispatch of the virtual \<open>normalize\<close> hook on
  the class of the value; a value class without a hook returns no result.\<close>

definition int_le_normalize :: "nat \<Rightarrow> expr list \<Rightarrow> error + expr option" where
  "int_le_normalize num_args args =
     (if num_args = 3 \<and> is_int_value (args ! 1) \<and> is_int_value (args ! 2)
      then Inr (Some (mk_bool_value (int_value_numeral (args ! 1) \<le> int_value_numeral (args ! 2))))
      else Inr None)"

fun value_normalize :: "val \<Rightarrow> nat \<Rightarrow> expr list \<Rightarrow> error + expr option" where
  "value_normalize (int_bin_op F) num_args args = int_bin_op_normalize F num_args args"
| "value_normalize int_le_value num_args args = int_le_normalize num_args args"
| "value_normalize v num_args args = Inr None"

text \<open>The constructors \<open>iVal\<close>, \<open>iAdd\<close>, \<open>iMul\<close> and \<open>Const\<close> used by the clients of
  the kernel.\<close>

definition iVal :: "int \<Rightarrow> expr" where
  "iVal v = mk_int_value v"

definition iAdd :: "expr \<Rightarrow> expr \<Rightarrow> expr" where
  "iAdd e1 e2 = mk_app [mk_value (int_bin_op int_add_eval), e1, e2]"

definition iMul :: "expr \<Rightarrow> expr \<Rightarrow> expr" where
  "iMul e1 e2 = mk_app [mk_value (int_bin_op int_mul_eval), e1, e2]"

definition Const :: "name \<Rightarrow> expr" where
  "Const n = Constant n None"

subsection \<open>Normalizer\<close>

text \<open>Modelled from the spec: the normalizer (\<open>normalize.cpp\<close> is not among the
  sources). An application normalizes its head and arguments, then beta-reduces a
  head lambda with \<open>apply_beta\<close>, or calls the \<open>normalize\<close> hook of a head value;
  a constant unfolds to the value of a non-opaque definition, and a name the
  environment does not declare raises \<open>unknown_object\<close>. The first argument of
  \<open>whnf\<close> and \<open>normalize\<close> is \<open>max_steps\<close>.\<close>

definition apply_hook :: "expr list \<Rightarrow> kernel_exception + expr option" where
  "apply_hook args =
     (case args of
        Value v # as \<Rightarrow>
          (case value_normalize v (length args) args of
             Inl err \<Rightarrow> Inl (builtin_failure err)
           | Inr r \<Rightarrow> Inr r)
      | _ \<Rightarrow> Inr None)"

definition beta :: "expr \<Rightarrow> expr list \<Rightarrow> kernel_exception + expr" where
  "beta f as =
     (case apply_beta f (length as) as of
        Inl err \<Rightarrow> Inl (builtin_failure err)
      | Inr r \<Rightarrow> Inr r)"

fun whnf :: "nat \<Rightarrow> environment \<Rightarrow> expr \<Rightarrow> kernel_exception + expr" where
  "whnf 0 env e = Inl max_steps_exceeded"
| "whnf (Suc n) env (App args) =
     (case args of
        [] \<Rightarrow> Inr (App args)
      | f # as \<Rightarrow>
          bind (whnf n env f) (\<lambda>f'.
            if is_lambda f' then bind (beta f' as) (whnf n env)
            else bind (apply_hook (f' # as)) (\<lambda>r.
              case r of Some e' \<Rightarrow> whnf n env e' | None \<Rightarrow> Inr (mk_app (f' # as)))))"
| "whnf (Suc n) env (Constant nm t) =
     (case find_object env nm of
        Some (Definition m ty v opaque) \<Rightarrow>
          if opaque then Inr (Constant nm t) else whnf n env v
      | _ \<Rightarrow> Inr (Constant nm t))"
| "whnf (Suc n) env (ELet nm t v b) = whnf n env (instantiate b 0 1 [v])"
| "whnf (Suc n) env (Proj i x) =
     bind (whnf n env x) (\<lambda>x'.
       case x' of
         EPair a b t \<Rightarrow> whnf n env (if i then a else b)
       | _ \<Rightarrow> Inr (Proj i x'))"
| "whnf (Suc n) env e = Inr e"

fun normalize :: "nat \<Rightarrow> environment \<Rightarrow> expr \<Rightarrow> kernel_exception + expr" where
  "normalize 0 env e = Inl max_steps_exceeded"
| "normalize (Suc n) env (Var i) = Inr (Var i)"
| "normalize (Suc n) env (Constant nm t) =
     (case find_object env nm of
        None \<Rightarrow> Inl (unknown_object nm)
      | Some (Definition m ty v opaque) \<Rightarrow>
          if opaque then Inr (Constant nm t) else normalize n env v
      | Some obj \<Rightarrow> Inr (Constant nm t))"
| "normalize (Suc n) env (Value v) = Inr (Value v)"
| "normalize (Suc n) env (Type l) = Inr (Type l)"
| "normalize (Suc n) env (MetaVar nm l) = Inr (MetaVar nm l)"
| "normalize (Suc n) env (App args) =
     bind (map_result (normalize n env) args) (\<lambda>args'.
       case args' of
         [] \<Rightarrow> Inr (App args')
       | f # as \<Rightarrow>
           if is_lambda f then bind (beta f as) (normalize n env)
           else bind (apply_hook args') (\<lambda>r.
             case r of Some e' \<Rightarrow> Inr e' | None \<Rightarrow> Inr (mk_app args')))"
| "normalize (Suc n) env (Lambda nm t b) =
     bind (normalize n env t) (\<lambda>t'. bind (normalize n env b) (\<lambda>b'. Inr (Lambda nm t' b')))"
| "normalize (Suc n) env (Pi nm t b) =
     bind (normalize n env t) (\<lambda>t'. bind (normalize n env b) (\<lambda>b'. Inr (Pi nm t' b')))"
| "normalize (Suc n) env (ESigma nm t b) =
     bind (normalize n env t) (\<lambda>t'. bind (normalize n env b) (\<lambda>b'. Inr (ESigma nm t' b')))"
| "normalize (Suc n) env (ELet nm t v b) =
     bind (normalize n env v) (\<lambda>v'. normalize n env (instantiate b 0 1 [v']))"
| "normalize (Suc n) env (HEq l r) =
     bind (normalize n env l) (\<lambda>l'. bind (normalize n env r) (\<lambda>r'. Inr (HEq l' r')))"
| "normalize (Suc n) env (EPair a b t) =
     bind (normalize n env a) (\<lambda>a'. bind (normalize n env b) (\<lambda>b'.
       bind (normalize n env t) (\<lambda>t'. Inr (EPair a' b' t'))))"
| "normalize (Suc n) env (Proj i x) =
     bind (normalize n env x) (\<lambda>x'.
       case x' of
         EPair a b t \<Rightarrow> Inr (if i then a else b)
       | _ \<Rightarrow> Inr (Proj i x'))"

subsection \<open>Type checker\<close>

text \<open>Modelled from the spec: the type checker (\<open>type_check.cpp\<close> is not among the
  sources). \<open>is_convertible a b\<close> holds for alpha-equivalent terms, for
  \<open>Type u\<close> and \<open>Type v\<close> with \<open>v \<ge> u\<close>, and for products with convertible
  domains (both ways) and convertible ranges. \<open>infer\<close> follows the rules of the
  spec: a constant has its declared type, \<open>Type l\<close> has type \<open>Type (l+1)\<close>, an
  application walks its arguments from left to right against the \<open>Pi\<close> type of the
  head, and the sort of \<open>Pi\<close> is impredicative when the range lives in the
  bottom universe.\<close>

definition mk_max :: "level \<Rightarrow> level \<Rightarrow> level" where
  "mk_max u v = (if v = Zero then Zero else Max u v)"

fun is_convertible :: "nat \<Rightarrow> environment \<Rightarrow> expr \<Rightarrow> expr \<Rightarrow> kernel_exception + bool" where
  "is_convertible 0 env a b = Inl max_steps_exceeded"
| "is_convertible (Suc n) env a b =
     (if alpha_eq a b then Inr True
      else
        bind (whnf n env a) (\<lambda>a'. bind (whnf n env b) (\<lambda>b'.
          case a' of
            Type u \<Rightarrow> (case b' of Type v \<Rightarrow> Inr (is_ge env v u) | _ \<Rightarrow> Inr False)
          | Pi nm A B \<Rightarrow>
              (case b' of
                 Pi nm' A' B' \<Rightarrow>
                   bind (is_convertible n env A A') (\<lambda>d1.
                   bind (is_convertible n env A' A) (\<lambda>d2.
                   bind (is_convertible n env B B') (\<lambda>c. Inr (d1 \<and> d2 \<and> c))))
               | _ \<Rightarrow> Inr False)
          | _ \<Rightarrow> Inr (alpha_eq a' b'))))"

fun infer :: "nat \<Rightarrow> environment \<Rightarrow> context \<Rightarrow> expr \<Rightarrow> kernel_exception + expr"
  and infer_args ::
    "nat \<Rightarrow> environment \<Rightarrow> context \<Rightarrow> expr \<Rightarrow> expr list \<Rightarrow> nat \<Rightarrow> expr \<Rightarrow> kernel_exception + expr"
  and infer_sort :: "nat \<Rightarrow> environment \<Rightarrow> context \<Rightarrow> expr \<Rightarrow> kernel_exception + level"
where
  "infer 0 env ctx e = Inl max_steps_exceeded"
| "infer (Suc n) env ctx (Var i) =
     (if i < length ctx then Inr (lift_free_vars (snd (ctx ! i)) 0 (i + 1))
      else Inl not_modelled)"
| "infer (Suc n) env ctx (Constant nm t) =
     (case find_object env nm of
        None \<Rightarrow> Inl (unknown_object nm)
      | Some (Postulate m ty) \<Rightarrow> Inr ty
      | Some (Definition m ty v opaque) \<Rightarrow> Inr ty
      | Some (Builtin m v) \<Rightarrow> Inr (get_type v)
      | Some obj \<Rightarrow> Inl not_modelled)"
| "infer (Suc n) env ctx (Type l) = Inr (Type (Succ l))"
| "infer (Suc n) env ctx (Value v) = Inr (get_type v)"
| "infer (Suc n) env ctx (App args) =
     (case args of
        [] \<Rightarrow> Inl not_modelled
      | f # as \<Rightarrow> bind (infer n env ctx f) (infer_args n env ctx (App args) as 1))"
| "infer (Suc n) env ctx (Lambda nm A b) =
     bind (infer_sort n env ctx A) (\<lambda>u.
       bind (infer n env ((nm, A) # ctx) b) (\<lambda>tb. Inr (Pi nm A tb)))"
| "infer (Suc n) env ctx (Pi nm A B) =
     bind (infer_sort n env ctx A) (\<lambda>u.
       bind (infer_sort n env ((nm, A) # ctx) B) (\<lambda>v. Inr (Type (mk_max u v))))"
| "infer (Suc n) env ctx e = Inl not_modelled"
| "infer_args 0 env ctx app as pos t = Inl max_steps_exceeded"
| "infer_args (Suc n) env ctx app [] pos t = Inr t"
| "infer_args (Suc n) env ctx app (a # as) pos t =
     bind (whnf n env t) (\<lambda>t'.
       case t' of
         Pi nm A B \<Rightarrow>
           bind (infer n env ctx a) (\<lambda>ta.
             bind (is_convertible n env ta A) (\<lambda>ok.
               if ok then infer_args n env ctx app as (pos + 1) (instantiate B 0 1 [a])
               else Inl (app_type_mismatch ctx app pos A ta)))
       | _ \<Rightarrow> Inl (function_expected ctx app))"
| "infer_sort 0 env ctx e = Inl max_steps_exceeded"
| "infer_sort (Suc n) env ctx e =
     bind (infer n env ctx e) (\<lambda>t.
       bind (whnf n env t) (\<lambda>s.
         case s of Type u \<Rightarrow> Inr u | _ \<Rightarrow> Inl (type_expected ctx e)))"

subsection \<open>Additions to an environment\<close>

text \<open>Modelled from the spec: the additions to an environment (\<open>environment.cpp\<close> is
  not among the sources). Each one first rejects a frozen environment, then a
  name that is already declared, then checks the new object, and inserts it last.\<close>

definition add_var :: "nat \<Rightarrow> environment \<Rightarrow> name \<Rightarrow> expr \<Rightarrow> kernel_exception + environment" where
  "add_var steps env n t =
     (if has_children env then Inl read_only_environment
      else if find_object env n \<noteq> None then Inl (already_declared_object n)
      else bind (infer_sort steps env [] t) (\<lambda>u. Inr (add_object env (Postulate n t))))"

definition add_definition ::
  "nat \<Rightarrow> environment \<Rightarrow> name \<Rightarrow> expr \<Rightarrow> expr \<Rightarrow> bool \<Rightarrow> kernel_exception + environment" where
  "add_definition steps env n t v opaque =
     (if has_children env then Inl read_only_environment
      else if find_object env n \<noteq> None then Inl (already_declared_object n)
      else
        bind (infer_sort steps env [] t) (\<lambda>u.
        bind (infer steps env [] v) (\<lambda>tv.
        bind (is_convertible steps env tv t) (\<lambda>ok.
          if ok then Inr (add_object env (Definition n t v opaque))
          else Inl (def_type_mismatch n t v tv)))))"

fun level_uvars :: "level \<Rightarrow> name list" where
  "level_uvars Zero = []"
| "level_uvars (Succ l) = level_uvars l"
| "level_uvars (Max a b) = level_uvars a @ level_uvars b"
| "level_uvars (UVar u) = [u]"

definition define_uvar :: "environment \<Rightarrow> name \<Rightarrow> level \<Rightarrow> kernel_exception + environment" where
  "define_uvar env n l =
     (if has_children env then Inl read_only_environment
      else if find_uvar env n \<noteq> None then Inl (already_declared_universe n)
      else
        (case find (\<lambda>u. find_uvar env u = None) (level_uvars l) of
           Some u \<Rightarrow> Inl (unknown_universe_variable u)
         | None \<Rightarrow> Inr (add_object env (UVarConstraint n l))))"

subsection \<open>Frozen environments\<close>

lemma drop_mk_child: "drop_child (fst (mk_child env)) = env"
  by (cases env) simp

lemma has_children_mk_child: "has_children (fst (mk_child env))"
  by (cases env) (simp add: has_children_def)

lemma whnf_not_read_only: "whnf n env e \<noteq> Inl read_only_environment"
proof (induction n arbitrary: e)
  case 0
  then show ?case by simp
next
  case (Suc n)
  show ?case
  proof (cases e)
    case (App args)
    then show ?thesis using Suc.IH
      by (auto simp: bind_def beta_def apply_hook_def
          split: sum.splits list.splits option.splits expr.splits)
  next
    case (Constant nm t)
    then show ?thesis using Suc.IH
      by (auto split: option.splits object.splits)
  next
    case (ELet nm t v b)
    then show ?thesis using Suc.IH by simp
  next
    case (Proj i x)
    then show ?thesis using Suc.IH
      by (auto simp: bind_def split: sum.splits expr.splits)
  qed simp_all
qed

lemma is_convertible_not_read_only: "is_convertible n env a b \<noteq> Inl read_only_environment"
proof (induction n arbitrary: a b)
  case 0
  then show ?case by simp
next
  case (Suc n)
  show ?case using Suc.IH whnf_not_read_only[of n env]
    by (auto simp: bind_def split: sum.splits expr.splits)
qed

lemma infer_not_read_only:
  "(\<forall>ctx e. infer n env ctx e \<noteq> Inl read_only_environment) \<and>
   (\<forall>ctx app as pos t. infer_args n env ctx app as pos t \<noteq> Inl read_only_environment) \<and>
   (\<forall>ctx e. infer_sort n env ctx e \<noteq> Inl read_only_environment)"
proof (induction n)
  case 0
  then show ?case by simp
next
  case (Suc n)
  have a: "infer (Suc n) env ctx e \<noteq> Inl read_only_environment" for ctx e
    using Suc.IH
    by (cases e) (auto simp: bind_def split: sum.splits list.splits option.splits object.splits)
  have b: "infer_args (Suc n) env ctx app as pos t \<noteq> Inl read_only_environment"
    for ctx app as pos t
    using Suc.IH whnf_not_read_only[of n env] is_convertible_not_read_only[of n env]
    by (cases as) (auto simp: bind_def split: sum.splits expr.splits)
  have c: "infer_sort (Suc n) env ctx e \<noteq> Inl read_only_environment" for ctx e
    using Suc.IH whnf_not_read_only[of n env]
    by (auto simp: bind_def split: sum.splits expr.splits)
  show ?case using a b c by blast
qed

lemma num_children_drop: "num_children ((drop_child ^^ j) env) = num_children env - j"
proof (induction j)
  case 0
  then show ?case by simp
next
  case (Suc j)
  then show ?case by (cases "(drop_child ^^ j) env") simp
qed

text \<open>The environment of the first client test: the universe variables \<open>u \<ge> 1\<close>
  and \<open>w \<ge> u + 1\<close>.\<close>

definition env_uw :: environment where
  "env_uw = Env [UVarConstraint ''u'' (Succ Zero),
                 UVarConstraint ''w'' (Succ (UVar ''u''))] None 0"

text \<open>Claim C6. An addition to an environment (\<open>add_var\<close>, \<open>add_definition\<close>,
  \<open>define_uvar\<close>) raises \<open>read_only_environment\<close> when the environment has a live
  child, and never raises it when the environment has none. Making a child freezes
  the environment, dropping that child restores it, and once every child is
  dropped the environment has no children, so additions are accepted again.\<close>

theorem read_only_iff_children:
  "(has_children env \<longrightarrow>
      add_var steps env n t = Inl read_only_environment \<and>
      add_definition steps env n t v opaque = Inl read_only_environment \<and>
      define_uvar env n l = Inl read_only_environment) \<and>
   (\<not> has_children env \<longrightarrow>
      add_var steps env n t \<noteq> Inl read_only_environment \<and>
      add_definition steps env n t v opaque \<noteq> Inl read_only_environment \<and>
      define_uvar env n l \<noteq> Inl read_only_environment) \<and>
   has_children (fst (mk_child env)) \<and>
   drop_child (fst (mk_child env)) = env \<and>
   \<not> has_children ((drop_child ^^ num_children env) env)"
proof -
  have ro: "has_children env \<longrightarrow>
      add_var steps env n t = Inl read_only_environment \<and>
      add_definition steps env n t v opaque = Inl read_only_environment \<and>
      define_uvar env n l = Inl read_only_environment"
    by (simp add: add_var_def add_definition_def define_uvar_def)
  have w1: "\<not> has_children env \<longrightarrow> add_var steps env n t \<noteq> Inl read_only_environment"
    using infer_not_read_only[of steps env]
    by (auto simp: add_var_def bind_def split: sum.splits)
  have w2: "\<not> has_children env \<longrightarrow>
      add_definition steps env n t v opaque \<noteq> Inl read_only_environment"
    using infer_not_read_only[of steps env] is_convertible_not_read_only[of steps env]
    by (auto simp: add_definition_def bind_def split: sum.splits)
  have w3: "\<not> has_children env \<longrightarrow> define_uvar env n l \<noteq> Inl read_only_environment"
    by (auto simp: define_uvar_def split: option.splits)
  have d: "\<not> has_children ((drop_child ^^ num_children env) env)"
    by (simp add: has_children_def num_children_drop)
  show ?thesis using ro w1 w2 w3 d has_children_mk_child drop_mk_child by blast
qed

theorem read_only_iff_children_witness:
  "has_children (fst (mk_child env_uw)) \<and>
   define_uvar (fst (mk_child env_uw)) ''o'' (Succ (UVar ''w'')) = Inl read_only_environment \<and>
   \<not> has_children (drop_child (fst (mk_child env_uw))) \<and>
   define_uvar (drop_child (fst (mk_child env_uw))) ''o'' (Succ (UVar ''w'')) =
     Inr (Env [UVarConstraint ''u'' (Succ Zero), UVarConstraint ''w'' (Succ (UVar ''u'')),
               UVarConstraint ''o'' (Succ (UVar ''w''))] None 0)"
  using read_only_iff_children[of "fst (mk_child env_uw)" 0 "''o''" "Type Zero" "Type Zero" False
        "Succ (UVar ''w'')"]
  by (simp add: define_uvar_def env_uw_def has_children_def)

subsection \<open>Arithmetic reduction\<close>

text \<open>The environments of the scenario: after \<open>a := 1 + 2\<close>, after \<open>b := 2 * a\<close>, and
  the child of the latter after \<open>c := a\<close>.\<close>

definition env_a :: environment where
  "env_a = Env [Definition ''a'' mk_int_type (iAdd (iVal 1) (iVal 2)) False] None 0"

definition env_b :: environment where
  "env_b = Env [Definition ''a'' mk_int_type (iAdd (iVal 1) (iVal 2)) False,
                Definition ''b'' mk_int_type (iMul (iVal 2) (Const ''a'')) False] None 0"

definition env_c :: environment where
  "env_c = Env [Definition ''c'' mk_int_type (Const ''a'') False] (Some (fst (mk_child env_b))) 0"

lemmas scenario_defs =
  eval_nat_numeral env_a_def env_b_def env_c_def Const_def iVal_def iMul_def iAdd_def mk_app_def
  mk_value_def mk_int_value_def mk_int_type_def bind_def apply_hook_def int_bin_op_normalize_def
  beta_def add_definition_def add_var_def define_uvar_def has_children_def arrow_def
  alpha_eq_def mk_max_def is_ge_def instantiate_def instantiate_core_def replace.simps
  uadd_def usub_def

text \<open>Claim C7. Starting from the empty environment, the definitions
  \<open>a : Int := 1 + 2\<close> and \<open>b : Int := 2 * a\<close> are accepted, and \<open>b\<close> normalizes to
  the literal \<open>6\<close>. In a child of that environment the definition \<open>c : Int := a\<close>
  is accepted and \<open>c\<close> normalizes to \<open>3\<close> there, while normalizing \<open>c\<close> in the
  parent raises \<open>unknown_object\<close> for \<open>c\<close>. This holds for every bound of at least
  eight steps.\<close>

theorem arithmetic_reduction_scenario:
  "add_definition (steps + 8) (Env [] None 0) ''a'' mk_int_type (iAdd (iVal 1) (iVal 2)) False
     = Inr env_a \<and>
   add_definition (steps + 8) env_a ''b'' mk_int_type (iMul (iVal 2) (Const ''a'')) False
     = Inr env_b \<and>
   normalize (steps + 8) env_b (Const ''b'') = Inr (iVal 6) \<and>
   add_definition (steps + 8) (snd (mk_child env_b)) ''c'' mk_int_type (Const ''a'') False
     = Inr env_c \<and>
   normalize (steps + 8) env_c (Const ''c'') = Inr (iVal 3) \<and>
   normalize (steps + 8) (fst (mk_child env_b)) (Const ''c'') = Inl (unknown_object ''c'')"
  by (simp add: scenario_defs)

subsection \<open>Universe cumulativity\<close>

text \<open>The environment of the scenario: \<open>u \<ge> 1\<close>, \<open>w \<ge> u + 1\<close> and
  \<open>f : Type u \<rightarrow> Type u\<close>.\<close>

definition env_f :: environment where
  "env_f = Env [UVarConstraint ''u'' (Succ Zero),
                UVarConstraint ''w'' (Succ (UVar ''u'')),
                Postulate ''f'' (arrow (Type (UVar ''u'')) (Type (UVar ''u'')))] None 0"

text \<open>Claim C8. The declarations of \<open>u\<close>, \<open>w\<close> and \<open>f\<close> are accepted; in the
  resulting environment the type of \<open>f Int\<close> is \<open>Type u\<close>, and inferring the type of
  \<open>f (Type w)\<close> raises \<open>app_type_mismatch\<close> at the first argument, where
  \<open>Type u\<close> is expected and \<open>Type (w+1)\<close> is given.\<close>

theorem universe_cumulativity_scenario:
  "define_uvar (Env [] None 0) ''u'' (Succ Zero) = Inr (Env [UVarConstraint ''u'' (Succ Zero)] None 0) \<and>
   define_uvar (Env [UVarConstraint ''u'' (Succ Zero)] None 0) ''w'' (Succ (UVar ''u'')) = Inr env_uw \<and>
   add_var (steps + 8) env_uw ''f'' (arrow (Type (UVar ''u'')) (Type (UVar ''u''))) = Inr env_f \<and>
   infer (steps + 8) env_f [] (App [Const ''f'', mk_int_type]) = Inr (Type (UVar ''u'')) \<and>
   infer (steps + 8) env_f [] (App [Const ''f'', Type (UVar ''w'')]) =
     Inl (app_type_mismatch [] (App [Const ''f'', Type (UVar ''w'')]) 1
            (Type (UVar ''u'')) (Type (Succ (UVar ''w''))))"
  by (simp add: scenario_defs env_f_def env_uw_def)


section \<open>Metavariable environment\<close>

text \<open>
  The cells of \<open>metavar_env\<close> as the header declares them. In this module a
  metavariable is known by its index (\<open>mk_metavar(idx)\<close>, \<open>metavar_idx\<close>); as an
  expression it is the metavariable whose name stands for the index
  (\<open>metavar_id\<close>). "Prefix" on contexts is the prefix of lists. The set
  \<open>m_available_definitions\<close> of the header, which restricts the definitions that
  unification unfolds, is left out: every non-opaque definition may be unfolded.
\<close>

datatype state = Unprocessed | Processing | Processed













subsection \<open>Unification\<close>

























subsection \<open>Public operations\<close>






subsection \<open>The contexts of a reachable state\<close>


























end
